theory Spec2Isabelle
  imports Main "HOL-Library.Word" "HOL-Library.Char_ord" "HOL-Library.Sublist"
    "HOL-Library.Multiset"
begin

section \<open>The Aho-Corasick automaton of aho\_corasick.hpp\<close>

text \<open>
  The header defines the class templates \<open>transition_map\<close>, \<open>interval\<close>,
  \<open>interval_tree\<close>, \<open>emit\<close>, \<open>state\<close> and \<open>basic_trie\<close>. States are heap
  objects that refer to each other through pointers (children are owned through the
  transition map; parent, root and failure pointers are not owning). The embedding keeps all
  states of one automaton in an arena, a list of state records, and a pointer is the position
  of a state in it; the null pointer is \<open>None\<close>. The root is allocated by the constructor
  of \<open>basic_trie\<close> and sits at position 0; \<open>new state\<close> appends to the arena.

  \<open>CharType\<close> is a type parameter with a linear order (the order of the keys of
  \<open>std::map\<close>). \<open>unsigned\<close> and \<open>uint32_t\<close> are 32-bit words, \<open>size_t\<close> positions
  in a text are 64-bit words. Depths and the counter of states are bounded by the number of
  allocated states and are natural numbers.

  A result of type \<open>option\<close> is \<open>None\<close> where the source has no result: a function
  ends without a return statement, a null pointer is dereferenced, an end iterator is erased,
  an assertion fails, \<open>at\<close> throws, or a loop does not terminate.
\<close>

subsection \<open>transition\_map\<close>

datatype error = No_return_value | Past_the_end

type_synonym state_ptr = nat

text \<open>\<open>d_map\<close>, a \<open>std::map\<close>: an association list with distinct keys in increasing order.\<close>

type_synonym 'c transition_map = "('c \<times> state_ptr) list"

text \<open>\<open>d_map[character].reset(next)\<close>: the entry is created when it is absent.\<close>

fun set_transition :: "'c::linorder \<Rightarrow> state_ptr \<Rightarrow> 'c transition_map \<Rightarrow> 'c transition_map" where
  "set_transition character next [] = [(character, next)]"
| "set_transition character next ((k, v) # m) =
     (if character < k then (character, next) # (k, v) # m
      else if character = k then (k, next) # m
      else (k, v) # set_transition character next m)"

definition size_tm :: "'c transition_map \<Rightarrow> nat" where
  "size_tm d_map = length d_map"

text \<open>\<open>find\<close>: the result parameter is written only when the key is found.\<close>

definition find_tm :: "'c \<Rightarrow> 'c transition_map \<Rightarrow> state_ptr option" where
  "find_tm character d_map = map_of d_map character"

text \<open>
  \<open>transition_map::get_states\<close> and \<open>transition_map::get_transitions\<close> as the header
  has them: the loop fills the local \<open>result\<close> and the body ends without a return
  statement, so that the caller receives no value.
\<close>

definition transition_map_get_states :: "'c transition_map \<Rightarrow> error + state_ptr list" where
  "transition_map_get_states d_map = (let result = map snd d_map in Inl No_return_value)"

definition transition_map_get_transitions :: "'c transition_map \<Rightarrow> error + 'c list" where
  "transition_map_get_transitions d_map = (let result = map fst d_map in Inl No_return_value)"

text \<open>
  \<open>state\<close> and \<open>basic_trie\<close> take the class of their transition maps as the template
  argument \<open>TransitionMap\<close>, whose default is \<open>transition_map\<close>; \<open>trie\<close> and
  \<open>wtrie\<close> are \<open>basic_trie\<close> at the default. The traversals of \<open>basic_trie\<close> call
  \<open>get_states\<close> and \<open>get_transitions\<close> of the argument, so they are embedded with these
  two member functions as an argument; the map itself and \<open>set_transition\<close>, \<open>size\<close>
  and \<open>find\<close> are those above. \<open>transition_map_class\<close> is the header's own class.
\<close>

record 'c TransitionMap =
  get_states :: "'c transition_map \<Rightarrow> error + state_ptr list"
  get_transitions :: "'c transition_map \<Rightarrow> error + 'c list"

definition transition_map_class :: "'c TransitionMap" where
  "transition_map_class =
     \<lparr>get_states = transition_map_get_states, get_transitions = transition_map_get_transitions\<rparr>"

subsection \<open>state\<close>

type_synonym 'c key_index = "'c list \<times> 32 word"

record 'c state =
  d_depth :: nat
  d_idx :: "32 word"
  d_string_idx :: "32 word"
  d_root :: "state_ptr option"
  d_parent :: "state_ptr option"
  d_success :: "'c transition_map"
  d_failure :: "state_ptr option"
  d_emits :: "'c key_index list"

text \<open>
  The constructor \<open>state(depth)\<close>; \<open>this\<close> is the address at which the state is
  allocated.
\<close>

definition new_state :: "state_ptr \<Rightarrow> nat \<Rightarrow> 'c state" where
  "new_state this depth =
     \<lparr>d_depth = depth, d_idx = 0, d_string_idx = 0,
      d_root = (if depth = 0 then Some this else None),
      d_parent = None, d_success = [], d_failure = None, d_emits = []\<rparr>"

text \<open>The private \<open>next_state(character, ignore_root_state)\<close> and its two public forms.\<close>

definition next_state_impl :: "'c state \<Rightarrow> 'c \<Rightarrow> bool \<Rightarrow> state_ptr option" where
  "next_state_impl s character ignore_root_state =
     (case find_tm character (d_success s) of
        Some result \<Rightarrow> Some result
      | None \<Rightarrow> if \<not> ignore_root_state \<and> d_root s \<noteq> None then d_root s else None)"

definition next_state :: "'c state \<Rightarrow> 'c \<Rightarrow> state_ptr option" where
  "next_state s character = next_state_impl s character False"

definition next_state_ignore_root_state :: "'c state \<Rightarrow> 'c \<Rightarrow> state_ptr option" where
  "next_state_ignore_root_state s character = next_state_impl s character True"

text \<open>\<open>add_state\<close> of the state at address \<open>this\<close>, on the arena.\<close>

definition add_state ::
  "'c::linorder state list \<Rightarrow> state_ptr \<Rightarrow> 'c \<Rightarrow> 'c state list \<times> state_ptr" where
  "add_state h this character =
     (case next_state_ignore_root_state (h ! this) character of
        Some next \<Rightarrow> (h, next)
      | None \<Rightarrow>
          (let next = length h;
               h1 = h @ [(new_state next (d_depth (h ! this) + 1))\<lparr>d_parent := Some this\<rparr>]
           in (h1[this := (h1 ! this)\<lparr>d_success :=
                   set_transition character next (d_success (h1 ! this))\<rparr>], next)))"

definition add_emit :: "'c list \<Rightarrow> 32 word \<Rightarrow> 'c state \<Rightarrow> 'c state" where
  "add_emit keyword index s = s\<lparr>d_emits := d_emits s @ [(keyword, index)]\<rparr>"

text \<open>The overload \<open>add_emit(const string_collection&)\<close>.\<close>

definition add_emits :: "'c key_index list \<Rightarrow> 'c state \<Rightarrow> 'c state" where
  "add_emits emits s = fold (\<lambda>e s. add_emit (fst e) (snd e) s) emits s"

definition clear_emits :: "'c state \<Rightarrow> 'c state" where
  "clear_emits s = s\<lparr>d_emits := []\<rparr>"

definition set_failure :: "state_ptr option \<Rightarrow> 'c state \<Rightarrow> 'c state" where
  "set_failure fail_state s = s\<lparr>d_failure := fail_state\<rparr>"

definition set_index :: "nat \<Rightarrow> 'c state \<Rightarrow> 'c state" where
  "set_index idx s = s\<lparr>d_idx := of_nat idx\<rparr>"

definition goto_transition_count :: "'c state \<Rightarrow> nat" where
  "goto_transition_count s = size_tm (d_success s)"

subsection \<open>basic\_trie: configuration and insertion\<close>

record config =
  d_allow_overlaps :: bool
  d_only_whole_words :: bool
  d_case_insensitive :: bool
  d_allow_substrings :: bool
  d_store_states_in_bfs_order :: bool

definition default_config :: config where
  "default_config =
     \<lparr>d_allow_overlaps = True, d_only_whole_words = False, d_case_insensitive = False,
      d_allow_substrings = True, d_store_states_in_bfs_order = False\<rparr>"

record 'c basic_trie =
  states :: "'c state list"
  d_config :: config
  d_postprocessed :: bool
  d_num_keywords :: "32 word"
  d_state_count :: nat
  d_states_in_bfs_order :: "state_ptr list"
  d_final_states_in_bfs_order :: "state_ptr list"

text \<open>\<open>d_root.get()\<close>: the root is the first state allocated.\<close>

definition root :: state_ptr where
  "root = 0"

definition new_trie :: "config \<Rightarrow> 'c basic_trie" where
  "new_trie c =
     \<lparr>states = [new_state root 0], d_config = c, d_postprocessed = False,
      d_num_keywords = 0, d_state_count = 0, d_states_in_bfs_order = [],
      d_final_states_in_bfs_order = []\<rparr>"

definition remove_overlaps_cfg :: "'c basic_trie \<Rightarrow> 'c basic_trie" where
  "remove_overlaps_cfg t = t\<lparr>d_config := (d_config t)\<lparr>d_allow_overlaps := False\<rparr>\<rparr>"

definition remove_substrings :: "'c basic_trie \<Rightarrow> 'c basic_trie" where
  "remove_substrings t = t\<lparr>d_config := (d_config t)\<lparr>d_allow_substrings := False\<rparr>\<rparr>"

text \<open>The loop of \<open>insert\<close> that walks and extends the path of the keyword.\<close>

fun insert_path ::
  "'c::linorder state list \<Rightarrow> state_ptr \<Rightarrow> 'c list \<Rightarrow> 'c state list \<times> state_ptr" where
  "insert_path h cur_state [] = (h, cur_state)"
| "insert_path h cur_state (ch # keyword) =
     (case add_state h cur_state ch of (h1, next) \<Rightarrow> insert_path h1 next keyword)"

text \<open>
  \<open>insert(keyword)\<close>: the automaton after the call and the returned pointer
  (\<open>None\<close> is \<open>nullptr\<close>).
\<close>

definition insert_trie ::
  "'c::linorder basic_trie \<Rightarrow> 'c list \<Rightarrow> 'c basic_trie \<times> state_ptr option" where
  "insert_trie t keyword =
     (if keyword = [] then (t, Some root)
      else case insert_path (states t) root keyword of (h, cur_state) \<Rightarrow>
        if 0 = length (d_emits (h ! cur_state)) \<or> d_allow_substrings (d_config t)
        then (t\<lparr>states := h[cur_state := add_emit keyword (d_num_keywords t) (h ! cur_state)],
                d_num_keywords := d_num_keywords t + 1\<rparr>, Some cur_state)
        else (t\<lparr>states := h\<rparr>, None))"

text \<open>
  The overload \<open>insert(first, last)\<close> on the range of positions \<open>[first, last)\<close> of a
  sequence \<open>xs\<close>. The loop tests \<open>first != last\<close> while it advances \<open>it\<close>; reading
  \<open>*it\<close> at the end of the sequence has no defined result.
\<close>

function insert_range_loop ::
  "'c::linorder basic_trie \<Rightarrow> 'c list list \<Rightarrow> nat \<Rightarrow> nat \<Rightarrow> nat \<Rightarrow> error + 'c basic_trie" where
  "insert_range_loop t xs first_pos last_pos it =
     (if first_pos \<noteq> last_pos
      then (if it < length xs
            then insert_range_loop (fst (insert_trie t (xs ! it))) xs first_pos last_pos (it + 1)
            else Inl Past_the_end)
      else Inr t)"
  by pat_completeness auto
termination
  by (relation "measure (\<lambda>(t, xs, first_pos, last_pos, it). length xs - it)") auto

definition insert_range ::
  "'c::linorder basic_trie \<Rightarrow> 'c list list \<Rightarrow> nat \<Rightarrow> nat \<Rightarrow> error + 'c basic_trie" where
  "insert_range t xs first_pos last_pos = insert_range_loop t xs first_pos last_pos first_pos"

subsection \<open>interval, emit\<close>

type_synonym size_t = "64 word"

record interval =
  d_start :: size_t
  d_end :: size_t

record 'c emit = interval +
  d_keyword :: "'c list"
  d_index :: "32 word"

definition max_pos :: size_t where
  "max_pos = - 1"

definition size_iv :: "'a interval_scheme \<Rightarrow> size_t" where
  "size_iv i = d_end i - d_start i + 1"

definition overlaps_with :: "'a interval_scheme \<Rightarrow> 'b interval_scheme \<Rightarrow> bool" where
  "overlaps_with i other \<longleftrightarrow> d_start i \<le> d_end other \<and> d_end i \<ge> d_start other"

text \<open>\<open>operator <\<close>, \<open>operator !=\<close> and \<open>operator ==\<close> of \<open>interval\<close>.\<close>

definition less_iv :: "'a interval_scheme \<Rightarrow> 'b interval_scheme \<Rightarrow> bool" where
  "less_iv i other \<longleftrightarrow> d_start i < d_start other"

definition neq_iv :: "'a interval_scheme \<Rightarrow> 'b interval_scheme \<Rightarrow> bool" where
  "neq_iv i other \<longleftrightarrow> d_start i \<noteq> d_start other \<or> d_end i \<noteq> d_end other"

definition eq_iv :: "'a interval_scheme \<Rightarrow> 'b interval_scheme \<Rightarrow> bool" where
  "eq_iv i other \<longleftrightarrow> d_start i = d_start other \<and> d_end i = d_end other"

definition make_emit :: "size_t \<Rightarrow> size_t \<Rightarrow> 'c list \<Rightarrow> 32 word \<Rightarrow> 'c emit" where
  "make_emit start end keyword index =
     \<lparr>d_start = start, d_end = end, d_keyword = keyword, d_index = index\<rparr>"

subsection \<open>interval\_tree\<close>

datatype 'a node =
  Node (d_point: size_t) (d_left: "'a node option") (d_right: "'a node option")
       (d_intervals: "'a list")

definition determine_median :: "'a interval_scheme list \<Rightarrow> size_t" where
  "determine_median intervals =
     (case fold (\<lambda>i (start, end).
               (if start = max_pos \<or> d_start i < start then d_start i else start,
                if end = max_pos \<or> d_end i > end then d_end i else end))
             intervals (max_pos, max_pos)
      of (start, end) \<Rightarrow> (start + end) div 2)"

text \<open>
  The constructor of \<open>node\<close>. It calls itself on the intervals to the left and to the right
  of the median, and does not return when one of these is the whole collection again.
\<close>

partial_function (option) build_node :: "'a interval_scheme list \<Rightarrow> 'a interval_scheme node option" where
  "build_node intervals =
     (let point = determine_median intervals;
          to_left = filter (\<lambda>i. d_end i < point) intervals;
          to_right = filter (\<lambda>i. \<not> d_end i < point \<and> d_start i > point) intervals;
          here = filter (\<lambda>i. \<not> d_end i < point \<and> \<not> d_start i > point) intervals
      in Option.bind (if length to_left > 0 then Option.bind (build_node to_left) (\<lambda>n. Some (Some n))
                      else Some None) (\<lambda>left.
         Option.bind (if length to_right > 0 then Option.bind (build_node to_right) (\<lambda>n. Some (Some n))
                      else Some None) (\<lambda>right.
         Some (Node point left right here))))"

declare build_node.simps [code]

definition add_to_overlaps :: "'a interval_scheme \<Rightarrow> 'a interval_scheme list \<Rightarrow>
    'a interval_scheme list \<Rightarrow> 'a interval_scheme list" where
  "add_to_overlaps i overlaps new_overlaps = overlaps @ filter (\<lambda>cur. neq_iv cur i) new_overlaps"

datatype direction = LEFT | RIGHT

definition check_overlaps :: "'a interval_scheme list \<Rightarrow> 'a interval_scheme \<Rightarrow> direction \<Rightarrow>
    'a interval_scheme list" where
  "check_overlaps intervals i d =
     filter (\<lambda>cur. case d of LEFT \<Rightarrow> d_start cur \<le> d_end i
                            | RIGHT \<Rightarrow> d_end cur \<ge> d_start i) intervals"

text \<open>
  \<open>node::find_overlaps\<close>; \<open>find_overlapping_ranges\<close> is the case distinction on the child
  pointer.
\<close>

fun find_overlaps_node :: "'a interval_scheme node \<Rightarrow> 'a interval_scheme \<Rightarrow>
    'a interval_scheme list" where
  "find_overlaps_node (Node point left right intervals) i =
     (if point < d_start i then
        add_to_overlaps i
          (add_to_overlaps i []
             (case right of None \<Rightarrow> [] | Some n \<Rightarrow> find_overlaps_node n i))
          (check_overlaps intervals i RIGHT)
      else if point > d_end i then
        add_to_overlaps i
          (add_to_overlaps i []
             (case left of None \<Rightarrow> [] | Some n \<Rightarrow> find_overlaps_node n i))
          (check_overlaps intervals i LEFT)
      else
        add_to_overlaps i
          (add_to_overlaps i
             (add_to_overlaps i [] intervals)
             (case left of None \<Rightarrow> [] | Some n \<Rightarrow> find_overlaps_node n i))
          (case right of None \<Rightarrow> [] | Some n \<Rightarrow> find_overlaps_node n i))"

text \<open>
  \<open>std::sort\<close> with a comparator \<open>lt\<close>. The order in which \<open>std::sort\<close> leaves
  elements that the comparator does not distinguish is unspecified; the insertion sort below
  keeps them in their order of arrival.
\<close>

fun insort_by :: "('a \<Rightarrow> 'a \<Rightarrow> bool) \<Rightarrow> 'a \<Rightarrow> 'a list \<Rightarrow> 'a list" where
  "insort_by lt x [] = [x]"
| "insort_by lt x (y # ys) = (if lt y x then y # insort_by lt x ys else x # y # ys)"

definition sort_by :: "('a \<Rightarrow> 'a \<Rightarrow> bool) \<Rightarrow> 'a list \<Rightarrow> 'a list" where
  "sort_by lt xs = foldr (insort_by lt) xs []"

text \<open>The comparator of the first sort in \<open>remove_overlaps\<close>.\<close>

definition size_start_order :: "'a interval_scheme \<Rightarrow> 'a interval_scheme \<Rightarrow> bool" where
  "size_start_order a b \<longleftrightarrow>
     (if size_iv b - size_iv a = 0 then d_start a > d_start b else size_iv a > size_iv b)"

text \<open>
  \<open>std::set<T> remove_tmp\<close>: ordered by \<open>operator <\<close> of \<open>interval\<close>, which compares the
  start positions only, so that the set holds at most one interval for each start position.
  \<open>set_find\<close> is \<open>remove_tmp.find(i) != remove_tmp.end()\<close>.
\<close>

fun set_insert :: "'a interval_scheme \<Rightarrow> 'a interval_scheme list \<Rightarrow> 'a interval_scheme list" where
  "set_insert x [] = [x]"
| "set_insert x (y # ys) =
     (if less_iv x y then x # y # ys
      else if less_iv y x then y # set_insert x ys
      else y # ys)"

definition set_find :: "'a interval_scheme \<Rightarrow> 'a interval_scheme list \<Rightarrow> bool" where
  "set_find i s \<longleftrightarrow> (\<exists>y \<in> set s. \<not> less_iv i y \<and> \<not> less_iv y i)"

text \<open>
  \<open>result.erase(std::find(result.begin(), result.end(), i))\<close>: the first element equal to
  \<open>i\<close> by \<open>operator ==\<close> is erased; erasing the end iterator has no defined result.
\<close>

fun erase_find :: "'a interval_scheme \<Rightarrow> 'a interval_scheme list \<Rightarrow> 'a interval_scheme list option" where
  "erase_find i [] = None"
| "erase_find i (x # xs) = (if eq_iv x i then Some xs else map_option ((#) x) (erase_find i xs))"

fun erase_all :: "'a interval_scheme list \<Rightarrow> 'a interval_scheme list \<Rightarrow> 'a interval_scheme list option" where
  "erase_all [] result = Some result"
| "erase_all (i # remove) result = Option.bind (erase_find i result) (erase_all remove)"

text \<open>The marking loop of \<open>remove_overlaps\<close> over the sorted intervals.\<close>

fun mark_overlaps :: "'a interval_scheme node \<Rightarrow> 'a interval_scheme list \<Rightarrow>
    'a interval_scheme list \<Rightarrow> 'a interval_scheme list" where
  "mark_overlaps tree [] remove_tmp = remove_tmp"
| "mark_overlaps tree (i # result) remove_tmp =
     (if set_find i remove_tmp then mark_overlaps tree result remove_tmp
      else mark_overlaps tree result (fold set_insert (find_overlaps_node tree i) remove_tmp))"

definition remove_overlaps :: "'a interval_scheme node \<Rightarrow> 'a interval_scheme list \<Rightarrow>
    'a interval_scheme list option" where
  "remove_overlaps tree intervals =
     (let result = sort_by size_start_order intervals;
          remove_tmp = mark_overlaps tree result []
      in map_option (sort_by less_iv) (erase_all remove_tmp result))"

subsection \<open>basic\_trie: compilation\<close>

text \<open>
  \<open>assign_indices\<close>: the queue is a list whose head is \<open>q.front()\<close>; the children are
  pushed at the back before the front is popped.
\<close>

partial_function (option) assign_indices_loop ::
  "'c TransitionMap \<Rightarrow> bool \<Rightarrow> 'c state list \<Rightarrow> state_ptr list \<Rightarrow> state_ptr list \<Rightarrow> nat \<Rightarrow>
     ('c state list \<times> state_ptr list \<times> nat) option" where
  "assign_indices_loop TM store h bfs q i =
     (case q of
        [] \<Rightarrow> Some (h, bfs, i)
      | cur_state # rest \<Rightarrow>
          (case get_states TM (d_success (h ! cur_state)) of
             Inl no_value \<Rightarrow> None
           | Inr state_ptrs \<Rightarrow>
               assign_indices_loop TM store (h[cur_state := set_index i (h ! cur_state)])
                 (if store then bfs @ [cur_state] else bfs)
                 (rest @ state_ptrs) (i + 1)))"

declare assign_indices_loop.simps [code]

definition assign_indices :: "'c TransitionMap \<Rightarrow> 'c basic_trie \<Rightarrow> 'c basic_trie option" where
  "assign_indices TM t =
     (case assign_indices_loop TM (d_store_states_in_bfs_order (d_config t)) (states t)
             (d_states_in_bfs_order t) [root] 0 of
        None \<Rightarrow> None
      | Some (h, bfs, i) \<Rightarrow>
          Some (t\<lparr>states := h, d_states_in_bfs_order := bfs, d_state_count := i\<rparr>))"

text \<open>\<open>remove_prefixes_from_state\<close>; a failed \<open>assert\<close> ends the program.\<close>

definition remove_prefixes_from_state :: "'c state list \<Rightarrow> state_ptr \<Rightarrow> 'c state list option" where
  "remove_prefixes_from_state h cur_state =
     (let emit_count = length (d_emits (h ! cur_state)) in
      if \<not> emit_count < 2 then None
      else if goto_transition_count (h ! cur_state) \<noteq> 0 \<and> emit_count \<noteq> 0
      then Some (h[cur_state := clear_emits (h ! cur_state)])
      else Some h)"

fun remove_prefixes_list :: "'c state list \<Rightarrow> state_ptr list \<Rightarrow> 'c state list option" where
  "remove_prefixes_list h [] = Some h"
| "remove_prefixes_list h (cur_state # rest) =
     (case remove_prefixes_from_state h cur_state of
        None \<Rightarrow> None
      | Some h1 \<Rightarrow> remove_prefixes_list h1 rest)"

partial_function (option) remove_prefixes_loop ::
  "'c TransitionMap \<Rightarrow> 'c state list \<Rightarrow> state_ptr list \<Rightarrow> 'c state list option" where
  "remove_prefixes_loop TM h q =
     (case q of
        [] \<Rightarrow> Some h
      | cur_state # rest \<Rightarrow>
          (case remove_prefixes_from_state h cur_state of
             None \<Rightarrow> None
           | Some h1 \<Rightarrow>
               (case get_states TM (d_success (h1 ! cur_state)) of
                  Inl no_value \<Rightarrow> None
                | Inr state_ptrs \<Rightarrow> remove_prefixes_loop TM h1 (rest @ state_ptrs))))"

declare remove_prefixes_loop.simps [code]

definition remove_prefixes :: "'c TransitionMap \<Rightarrow> 'c basic_trie \<Rightarrow> 'c basic_trie option" where
  "remove_prefixes TM t =
     (if d_store_states_in_bfs_order (d_config t)
      then (if d_states_in_bfs_order t = [] then None
            else map_option (\<lambda>h. t\<lparr>states := h\<rparr>)
                   (remove_prefixes_list (states t) (d_states_in_bfs_order t)))
      else map_option (\<lambda>h. t\<lparr>states := h\<rparr>) (remove_prefixes_loop TM (states t) [root]))"

text \<open>
  \<open>construct_failure_states\<close>. The innermost loop follows failure pointers from
  \<open>trace_failure_state\<close> until a state has a transition; the pointer is dereferenced, so a
  null pointer leaves the loop without a result.
\<close>

partial_function (option) trace_failure ::
  "'c state list \<Rightarrow> state_ptr option \<Rightarrow> 'c \<Rightarrow> state_ptr option" where
  "trace_failure h trace_failure_state transition =
     (case trace_failure_state of
        None \<Rightarrow> None
      | Some tr \<Rightarrow>
          if next_state (h ! tr) transition = None
          then trace_failure h (d_failure (h ! tr)) transition
          else Some tr)"

declare trace_failure.simps [code]

text \<open>The \<open>while (true)\<close> loop: the arena and \<open>new_failure_state\<close> at the \<open>break\<close>.\<close>

partial_function (option) new_failure ::
  "bool \<Rightarrow> 'c state list \<Rightarrow> state_ptr option \<Rightarrow> 'c \<Rightarrow> ('c state list \<times> state_ptr) option" where
  "new_failure allow_substrings h trace_failure_state transition =
     (case trace_failure h trace_failure_state transition of
        None \<Rightarrow> None
      | Some tr \<Rightarrow>
          (case next_state (h ! tr) transition of
             None \<Rightarrow> None
           | Some new_failure_state \<Rightarrow>
               if \<not> allow_substrings \<and> length (d_emits (h ! new_failure_state)) \<noteq> 0
               then new_failure allow_substrings
                      (h[new_failure_state := clear_emits (h ! new_failure_state)])
                      (d_failure (h ! tr)) transition
               else Some (h, new_failure_state)))"

declare new_failure.simps [code]

text \<open>The body of the loop over the transitions of \<open>cur_state\<close>, and that loop.\<close>

definition failure_transition ::
  "bool \<Rightarrow> state_ptr \<Rightarrow> 'c \<Rightarrow> 'c state list \<times> state_ptr list \<Rightarrow>
     ('c state list \<times> state_ptr list) option" where
  "failure_transition allow_substrings cur_state transition hq =
     (case hq of (h, q) \<Rightarrow>
        (case next_state (h ! cur_state) transition of
           None \<Rightarrow> None
         | Some target_state \<Rightarrow>
             (case new_failure allow_substrings h (d_failure (h ! cur_state)) transition of
                None \<Rightarrow> None
              | Some (h1, new_failure_state) \<Rightarrow>
                  (let h2 = h1[target_state := set_failure (Some new_failure_state) (h1 ! target_state)];
                       h3 = h2[target_state := add_emits (d_emits (h2 ! new_failure_state)) (h2 ! target_state)]
                   in Some (h3, q @ [target_state])))))"

fun failure_transitions ::
  "bool \<Rightarrow> state_ptr \<Rightarrow> 'c list \<Rightarrow> 'c state list \<times> state_ptr list \<Rightarrow>
     ('c state list \<times> state_ptr list) option" where
  "failure_transitions allow_substrings cur_state [] hq = Some hq"
| "failure_transitions allow_substrings cur_state (transition # ts) hq =
     (case failure_transition allow_substrings cur_state transition hq of
        None \<Rightarrow> None
      | Some hq1 \<Rightarrow> failure_transitions allow_substrings cur_state ts hq1)"

partial_function (option) failure_loop ::
  "'c TransitionMap \<Rightarrow> bool \<Rightarrow> 'c state list \<Rightarrow> state_ptr list \<Rightarrow> 'c state list option" where
  "failure_loop TM allow_substrings h q =
     (case q of
        [] \<Rightarrow> Some h
      | cur_state # rest \<Rightarrow>
          (case get_transitions TM (d_success (h ! cur_state)) of
             Inl no_value \<Rightarrow> None
           | Inr transitions \<Rightarrow>
               (case failure_transitions allow_substrings cur_state transitions (h, q) of
                  None \<Rightarrow> None
                | Some (h1, q1) \<Rightarrow> failure_loop TM allow_substrings h1 (tl q1))))"

declare failure_loop.simps [code]

definition construct_failure_states :: "'c TransitionMap \<Rightarrow> 'c basic_trie \<Rightarrow> 'c basic_trie option" where
  "construct_failure_states TM t =
     (case get_states TM (d_success (states t ! root)) of
        Inl no_value \<Rightarrow> None
      | Inr depth_one \<Rightarrow>
          (let h = fold (\<lambda>depth_one_state h. h[depth_one_state :=
                          set_failure (Some root) (h ! depth_one_state)]) depth_one (states t)
           in map_option (\<lambda>h1. t\<lparr>states := h1\<rparr>)
                (failure_loop TM (d_allow_substrings (d_config t)) h depth_one)))"

definition check_postprocess :: "'c TransitionMap \<Rightarrow> 'c basic_trie \<Rightarrow> 'c basic_trie option" where
  "check_postprocess TM t =
     (if \<not> d_postprocessed t then
        (case assign_indices TM t of
           None \<Rightarrow> None
         | Some t1 \<Rightarrow>
             (case (if \<not> d_allow_substrings (d_config t1) then remove_prefixes TM t1 else Some t1) of
                None \<Rightarrow> None
              | Some t2 \<Rightarrow>
                  (case construct_failure_states TM t2 of
                     None \<Rightarrow> None
                   | Some t3 \<Rightarrow>
                       Some ((if d_store_states_in_bfs_order (d_config t3)
                              then t3\<lparr>d_final_states_in_bfs_order :=
                                     d_final_states_in_bfs_order t3 @
                                     filter (\<lambda>cur_state. length (d_emits (states t3 ! cur_state)) \<noteq> 0)
                                       (d_states_in_bfs_order t3)\<rparr>
                              else t3)\<lparr>d_postprocessed := True\<rparr>))))
      else Some t)"

subsection \<open>basic\_trie: scanning\<close>

partial_function (option) get_state ::
  "'c state list \<Rightarrow> state_ptr \<Rightarrow> 'c \<Rightarrow> state_ptr option" where
  "get_state h cur_state c =
     (case next_state (h ! cur_state) c of
        Some result \<Rightarrow> Some result
      | None \<Rightarrow>
          (case d_failure (h ! cur_state) of
             None \<Rightarrow> None
           | Some f \<Rightarrow> get_state h f c))"

declare get_state.simps [code]

definition store_emits :: "size_t \<Rightarrow> 'c state \<Rightarrow> 'c emit list \<Rightarrow> 'c emit list" where
  "store_emits pos cur_state collected_emits =
     collected_emits @
     map (\<lambda>str. make_emit (pos - of_nat (length (fst str)) + 1) pos (fst str) (snd str))
       (d_emits cur_state)"

text \<open>
  \<open>std::tolower\<close> and \<open>std::isalpha\<close> come from the C library and are parameters of the
  embedding. The loop of \<open>parse_text\<close> over the characters of the text:
\<close>

fun scan_loop ::
  "('c \<Rightarrow> 'c) \<Rightarrow> bool \<Rightarrow> 'c state list \<Rightarrow> 'c list \<Rightarrow> size_t \<Rightarrow> state_ptr \<Rightarrow> 'c emit list \<Rightarrow>
     'c emit list option" where
  "scan_loop tolower ci h [] pos cur_state collected_emits = Some collected_emits"
| "scan_loop tolower ci h (c # text) pos cur_state collected_emits =
     (case get_state h cur_state (if ci then tolower c else c) of
        None \<Rightarrow> None
      | Some next \<Rightarrow>
          scan_loop tolower ci h text (pos + 1) next
            (store_emits pos (h ! next) collected_emits))"

text \<open>\<open>search_text.at(n)\<close> throws when \<open>n\<close> is not a position of the text.\<close>

definition at :: "'c list \<Rightarrow> size_t \<Rightarrow> 'c option" where
  "at text n = (if unat n < length text then Some (text ! unat n) else None)"

definition is_whole_word :: "('c \<Rightarrow> bool) \<Rightarrow> 'c list \<Rightarrow> 'c emit \<Rightarrow> bool option" where
  "is_whole_word isalpha search_text e =
     Option.bind
       (if d_start e = 0 then Some True
        else map_option (\<lambda>c. \<not> isalpha c) (at search_text (d_start e - 1)))
       (\<lambda>left_ok. if \<not> left_ok then Some False
          else if d_end e + 1 = of_nat (length search_text) then Some True
          else map_option (\<lambda>c. \<not> isalpha c) (at search_text (d_end e + 1)))"

fun partial_matches :: "('c \<Rightarrow> bool) \<Rightarrow> 'c list \<Rightarrow> 'c emit list \<Rightarrow> 'c emit list option" where
  "partial_matches isalpha search_text [] = Some []"
| "partial_matches isalpha search_text (e # es) =
     Option.bind (is_whole_word isalpha search_text e) (\<lambda>whole.
     Option.bind (partial_matches isalpha search_text es) (\<lambda>remove_emits.
       Some (if whole then remove_emits else e # remove_emits)))"

definition remove_partial_matches ::
  "('c \<Rightarrow> bool) \<Rightarrow> 'c list \<Rightarrow> 'c emit list \<Rightarrow> 'c emit list option" where
  "remove_partial_matches isalpha search_text collected_emits =
     Option.bind (partial_matches isalpha search_text collected_emits)
       (\<lambda>remove_emits. erase_all remove_emits collected_emits)"

text \<open>
  \<open>parse_text\<close> returns the collected emits; the automaton after the call is returned too,
  since \<open>check_postprocess\<close> changes it.
\<close>

definition parse_text ::
  "'c TransitionMap \<Rightarrow> ('c \<Rightarrow> 'c) \<Rightarrow> ('c \<Rightarrow> bool) \<Rightarrow> 'c basic_trie \<Rightarrow> 'c list \<Rightarrow>
     ('c basic_trie \<times> 'c emit list) option" where
  "parse_text TM tolower isalpha t text =
     (case check_postprocess TM t of
        None \<Rightarrow> None
      | Some t1 \<Rightarrow>
          (case scan_loop tolower (d_case_insensitive (d_config t1)) (states t1) text 0 root [] of
             None \<Rightarrow> None
           | Some collected_emits \<Rightarrow>
               (case (if d_only_whole_words (d_config t1)
                      then remove_partial_matches isalpha text collected_emits
                      else Some collected_emits) of
                  None \<Rightarrow> None
                | Some collected_emits1 \<Rightarrow>
                    (if \<not> d_allow_overlaps (d_config t1)
                     then (case build_node collected_emits1 of
                             None \<Rightarrow> None
                           | Some tree \<Rightarrow>
                               map_option (\<lambda>tmp. (t1, tmp)) (remove_overlaps tree collected_emits1))
                     else Some (t1, collected_emits1)))))"

subsection \<open>Automata built through the interface\<close>

text \<open>A sequence of calls of \<open>insert\<close>, the returned pointers dropped.\<close>

definition inserts :: "'c::linorder basic_trie \<Rightarrow> 'c list list \<Rightarrow> 'c basic_trie" where
  "inserts t keywords = fold (\<lambda>keyword t. fst (insert_trie t keyword)) keywords t"

text \<open>The state reached from \<open>p\<close> along the transitions labelled by a string, if there is one.\<close>

fun walk :: "'c state list \<Rightarrow> state_ptr \<Rightarrow> 'c list \<Rightarrow> state_ptr option" where
  "walk h p [] = Some p"
| "walk h p (c # w) =
     (case find_tm c (d_success (h ! p)) of None \<Rightarrow> None | Some q \<Rightarrow> walk h q w)"

text \<open>Intervals and automata used as examples.\<close>

definition iv :: "nat \<Rightarrow> nat \<Rightarrow> interval" where
  "iv a b = \<lparr>d_start = of_nat a, d_end = of_nat b\<rparr>"

definition ushers_trie :: "char basic_trie" where
  "ushers_trie = inserts (new_trie default_config) [''he'', ''she'', ''hers'', ''his'']"

definition ushers_her_trie :: "char basic_trie" where
  "ushers_her_trie =
     remove_overlaps_cfg (inserts (new_trie default_config) [''ushers'', ''he'', ''her''])"

text \<open>
  The use of the interval tree in \<open>parse_text\<close>: the tree is built over a collection and
  \<open>remove_overlaps\<close> is called with the same collection.
\<close>

definition tree_remove_overlaps :: "'a interval_scheme list \<Rightarrow> 'a interval_scheme list option" where
  "tree_remove_overlaps intervals =
     Option.bind (build_node intervals) (\<lambda>tree. remove_overlaps tree intervals)"

text \<open>A scan with the automaton dropped: the emits, and the emits as keyword and range.\<close>

definition scan ::
  "'c TransitionMap \<Rightarrow> ('c \<Rightarrow> 'c) \<Rightarrow> ('c \<Rightarrow> bool) \<Rightarrow> 'c basic_trie \<Rightarrow> 'c list \<Rightarrow> 'c emit list option" where
  "scan TM tolower isalpha t text = map_option snd (parse_text TM tolower isalpha t text)"

definition emit_range :: "'c emit \<Rightarrow> 'c list \<times> size_t \<times> size_t" where
  "emit_range e = (d_keyword e, d_start e, d_end e)"

definition scan_ranges ::
  "'c TransitionMap \<Rightarrow> ('c \<Rightarrow> 'c) \<Rightarrow> ('c \<Rightarrow> bool) \<Rightarrow> 'c basic_trie \<Rightarrow> 'c list \<Rightarrow>
     ('c list \<times> size_t \<times> size_t) list option" where
  "scan_ranges TM tolower isalpha t text =
     map_option (map emit_range) (scan TM tolower isalpha t text)"

text \<open>Stand-ins for the two functions of the C library where a configuration does not call them.\<close>

definition no_tolower :: "char \<Rightarrow> char" where
  "no_tolower c = c"

definition no_isalpha :: "char \<Rightarrow> bool" where
  "no_isalpha c = False"

text \<open>
  An argument for \<open>TransitionMap\<close> that is not a class of the header: its two enumerations
  return the vectors that the loops of \<open>get_states\<close> and \<open>get_transitions\<close> fill. What
  the traversals of \<open>basic_trie\<close> do once the enumerations return is stated with it.
\<close>

definition enumerating_map :: "'c TransitionMap" where
  "enumerating_map =
     \<lparr>get_states = (\<lambda>d_map. Inr (map snd d_map)),
      get_transitions = (\<lambda>d_map. Inr (map fst d_map))\<rparr>"

subsection \<open>Invariants\<close>

text \<open>
  The states of an automaton form a tree. \<open>trie_inv h pth\<close> says so for an arena \<open>h\<close>:
  \<open>pth p\<close> is the string that labels the path from the root to the state \<open>p\<close>; every
  transition leads to a state of the arena whose path is one character longer; every state is
  reached from the root along its path; only the root has \<open>d_root\<close> set; \<open>d_depth\<close> is
  the length of the path; the keys of a transition map are in increasing order.
\<close>

definition trie_inv :: "'c::linorder state list \<Rightarrow> (state_ptr \<Rightarrow> 'c list) \<Rightarrow> bool" where
  "trie_inv h pth \<longleftrightarrow>
     h \<noteq> [] \<and> pth root = [] \<and>
     (\<forall>p<length h. \<forall>c q. find_tm c (d_success (h ! p)) = Some q \<longrightarrow>
        q < length h \<and> pth q = pth p @ [c]) \<and>
     (\<forall>p<length h. walk h root (pth p) = Some p) \<and>
     (\<forall>p<length h. d_root (h ! p) = (if p = root then Some root else None)) \<and>
     (\<forall>p<length h. d_depth (h ! p) = length (pth p)) \<and>
     (\<forall>p<length h. sorted_wrt (<) (map fst (d_success (h ! p))))"

text \<open>The arena after \<open>add_state\<close> has allocated a state.\<close>

definition grow :: "'c::linorder state list \<Rightarrow> state_ptr \<Rightarrow> 'c \<Rightarrow> 'c state list" where
  "grow h this c =
     (h @ [(new_state (length h) (d_depth (h ! this) + 1))\<lparr>d_parent := Some this\<rparr>])
       [this := (h ! this)\<lparr>d_success := set_transition c (length h) (d_success (h ! this))\<rparr>]"

text \<open>Two arenas with the same transitions, root pointers and depths.\<close>

definition same_topology :: "'c state list \<Rightarrow> 'c state list \<Rightarrow> bool" where
  "same_topology h h' \<longleftrightarrow>
     length h' = length h \<and>
     (\<forall>p<length h. d_success (h' ! p) = d_success (h ! p) \<and> d_root (h' ! p) = d_root (h ! p) \<and>
        d_depth (h' ! p) = d_depth (h ! p))"

text \<open>
  The emits of all states, and the invariant on them before compilation: a state carries only
  the keyword that labels its path.
\<close>

definition all_emits :: "'c state list \<Rightarrow> 'c key_index list" where
  "all_emits h = concat (map d_emits h)"

definition emits_inv :: "'c state list \<Rightarrow> (state_ptr \<Rightarrow> 'c list) \<Rightarrow> bool" where
  "emits_inv h pth \<longleftrightarrow> (\<forall>p<length h. \<forall>e\<in>set (d_emits (h ! p)). fst e = pth p \<and> pth p \<noteq> [])"

text \<open>
  The keywords of the accepted calls in a sequence of calls of \<open>insert\<close>, in the order of
  the calls: a call is accepted when its keyword is not empty and the pointer that it returns
  is not null.
\<close>

fun accepted :: "'c::linorder basic_trie \<Rightarrow> 'c list list \<Rightarrow> 'c list list" where
  "accepted t [] = []"
| "accepted t (keyword # keywords) =
     (case insert_trie t keyword of (t1, r) \<Rightarrow>
        (if keyword \<noteq> [] \<and> r \<noteq> None then [keyword] else []) @ accepted t1 keywords)"

text \<open>The invariant of an automaton between calls of \<open>insert\<close>.\<close>

definition pre_inv :: "'c::linorder basic_trie \<Rightarrow> (state_ptr \<Rightarrow> 'c list) \<Rightarrow> bool" where
  "pre_inv t pth \<longleftrightarrow>
     trie_inv (states t) pth \<and> emits_inv (states t) pth \<and>
     (\<not> d_allow_substrings (d_config t) \<longrightarrow>
        (\<forall>p<length (states t). length (d_emits (states t ! p)) \<le> 1))"

text \<open>
  The order in which the queues of the breadth-first loops decrease: the multiset extension of
  "is a deeper state of the arena".
\<close>

definition child_rel :: "nat \<Rightarrow> (state_ptr \<Rightarrow> 'c list) \<Rightarrow> (state_ptr \<times> state_ptr) set" where
  "child_rel n pth = {(a, b). a < n \<and> b < n \<and> length (pth b) < length (pth a)}"

definition queue_rel :: "nat \<Rightarrow> (state_ptr \<Rightarrow> 'c list) \<Rightarrow> (state_ptr list \<times> state_ptr list) set" where
  "queue_rel n pth = inv_image (mult (child_rel n pth)) mset"

text \<open>Two arenas that differ in the indices \<open>d_idx\<close> at most.\<close>

definition same_but_idx :: "'c state list \<Rightarrow> 'c state list \<Rightarrow> bool" where
  "same_but_idx h h' \<longleftrightarrow>
     length h' = length h \<and> (\<forall>p<length h. \<exists>i. h' ! p = (h ! p)\<lparr>d_idx := i\<rparr>)"

text \<open>
  The declarative description of a failure link. \<open>is_lps h v w\<close>: \<open>v\<close> is the longest
  proper suffix of \<open>w\<close> that labels a path of the trie. \<open>fail_ok h0 pth h p\<close>: in the
  arena \<open>h\<close> the failure pointer of \<open>p\<close> is the state of that suffix of the path of
  \<open>p\<close>. \<open>ready\<close>: all states up to a depth have such failure pointers.
\<close>

definition in_trie :: "'c state list \<Rightarrow> 'c list \<Rightarrow> bool" where
  "in_trie h w \<longleftrightarrow> walk h root w \<noteq> None"

definition is_lps :: "'c state list \<Rightarrow> 'c list \<Rightarrow> 'c list \<Rightarrow> bool" where
  "is_lps h v w \<longleftrightarrow>
     strict_suffix v w \<and> in_trie h v \<and>
     (\<forall>u. strict_suffix u w \<and> in_trie h u \<longrightarrow> length u \<le> length v)"

definition fail_ok ::
  "'c state list \<Rightarrow> (state_ptr \<Rightarrow> 'c list) \<Rightarrow> 'c state list \<Rightarrow> state_ptr \<Rightarrow> bool" where
  "fail_ok h0 pth h p \<longleftrightarrow>
     (\<exists>f. d_failure (h ! p) = Some f \<and> f < length h0 \<and> is_lps h0 (pth f) (pth p))"

definition ready ::
  "'c state list \<Rightarrow> (state_ptr \<Rightarrow> 'c list) \<Rightarrow> 'c state list \<Rightarrow> nat \<Rightarrow> bool" where
  "ready h0 pth h l \<longleftrightarrow>
     (\<forall>p<length h0. p \<noteq> root \<and> length (pth p) \<le> l \<longrightarrow> fail_ok h0 pth h p)"

text \<open>
  The invariant on emits during and after compilation: every keyword of a state is a non-empty
  suffix of the path of the state, and is one of the emits \<open>E\<close> present before compilation.
\<close>

definition emits_ok ::
  "'c key_index set \<Rightarrow> (state_ptr \<Rightarrow> 'c list) \<Rightarrow> 'c state list \<Rightarrow> bool" where
  "emits_ok E pth h \<longleftrightarrow>
     (\<forall>p<length h. \<forall>e\<in>set (d_emits (h ! p)). fst e \<noteq> [] \<and> suffix (fst e) (pth p) \<and> e \<in> E)"

text \<open>
  The invariant of the loop of \<open>construct_failure_states\<close> over the queue \<open>q\<close>: the
  queued states have their failure pointers; a state without its failure pointer is below a
  queued state; the queue is ordered by depth and spans at most two depths.
\<close>

definition bfs_inv ::
  "'c state list \<Rightarrow> (state_ptr \<Rightarrow> 'c list) \<Rightarrow> 'c key_index set \<Rightarrow> 'c state list \<Rightarrow>
     state_ptr list \<Rightarrow> bool" where
  "bfs_inv h0 pth E h q \<longleftrightarrow>
     same_topology h0 h \<and>
     (\<forall>p\<in>set q. p < length h0 \<and> p \<noteq> root \<and> fail_ok h0 pth h p) \<and>
     (\<forall>p<length h0. p \<noteq> root \<longrightarrow>
        fail_ok h0 pth h p \<or> (\<exists>a\<in>set q. strict_prefix (pth a) (pth p))) \<and>
     sorted_wrt (\<lambda>a b. length (pth a) \<le> length (pth b)) q \<and>
     (\<forall>p\<in>set q. length (pth p) \<le> Suc (length (pth (hd q)))) \<and>
     emits_ok E pth h"

text \<open>The arena \<open>h\<close> of a compiled automaton whose arena was \<open>h0\<close> before compilation.\<close>

definition compiled ::
  "'c::linorder state list \<Rightarrow> (state_ptr \<Rightarrow> 'c list) \<Rightarrow> 'c key_index set \<Rightarrow> 'c state list \<Rightarrow> bool" where
  "compiled h0 pth E h \<longleftrightarrow>
     trie_inv h0 pth \<and> same_topology h0 h \<and> emits_ok E pth h \<and>
     (\<forall>p<length h0. p \<noteq> root \<longrightarrow> fail_ok h0 pth h p)"

text \<open>An emit whose range lies in a text and holds the keyword of the emit.\<close>

definition emit_in_text :: "'c list \<Rightarrow> 'c emit \<Rightarrow> bool" where
  "emit_in_text text e \<longleftrightarrow>
     d_start e = d_end e - of_nat (length (d_keyword e)) + 1 \<and>
     unat (d_end e) < length text \<and>
     unat (d_start e) + length (d_keyword e) = unat (d_end e) + 1 \<and>
     take (length (d_keyword e)) (drop (unat (d_start e)) text) = d_keyword e"

text \<open>The configuration after \<open>remove_substrings()\<close>.\<close>

definition no_substrings_config :: config where
  "no_substrings_config = default_config\<lparr>d_allow_substrings := False\<rparr>"

text \<open>
  What every step of compilation keeps, under any configuration: the transitions, failure
  pointers that point into the arena, and emits among the emits \<open>E\<close>.
\<close>

definition weak_inv :: "'c state list \<Rightarrow> 'c key_index set \<Rightarrow> 'c state list \<Rightarrow> bool" where
  "weak_inv h0 E h \<longleftrightarrow>
     same_topology h0 h \<and>
     (\<forall>p<length h0. \<forall>f. d_failure (h ! p) = Some f \<longrightarrow> f < length h0) \<and>
     (\<forall>p<length h0. set (d_emits (h ! p)) \<subseteq> E)"

text \<open>No state has a failure pointer, as it is before compilation.\<close>

definition no_failure :: "'c state list \<Rightarrow> bool" where
  "no_failure h \<longleftrightarrow> (\<forall>p<length h. d_failure (h ! p) = None)"

text \<open>An automaton with substrings disallowed and a keyword inserted twice.\<close>

definition he_he_she :: "char basic_trie" where
  "he_he_she = inserts (new_trie no_substrings_config) [''he'', ''he'', ''she'']"

section \<open>Properties\<close>

lemma get_states_enumerating_map [simp]:
  "get_states enumerating_map d_map = Inr (map snd d_map)"
  by (simp add: enumerating_map_def)

lemma get_transitions_enumerating_map [simp]:
  "get_transitions enumerating_map d_map = Inr (map fst d_map)"
  by (simp add: enumerating_map_def)

lemma get_states_transition_map_class [simp]:
  "get_states transition_map_class d_map = Inl No_return_value"
  by (simp add: transition_map_class_def transition_map_get_states_def)

lemma get_transitions_transition_map_class [simp]:
  "get_transitions transition_map_class d_map = Inl No_return_value"
  by (simp add: transition_map_class_def transition_map_get_transitions_def)

subsection \<open>Enumeration of a transition map\<close>

text \<open>
  C10. \<open>transition_map::get_states\<close> and \<open>transition_map::get_transitions\<close> should return
  the child states and the transition characters of a state. As the header has them, they
  build the collection and return nothing, for every transition map.
\<close>

theorem transition_map_enumeration_returns_nothing:
  "transition_map_get_states d_map = Inl No_return_value \<and>
   transition_map_get_transitions d_map = Inl No_return_value"
  by (simp add: transition_map_get_states_def transition_map_get_transitions_def)

subsection \<open>Insertion of a range\<close>

lemma insert_range_loop_nonempty:
  "first_pos \<noteq> last_pos \<Longrightarrow> insert_range_loop t xs first_pos last_pos it = Inl Past_the_end"
proof (induction t xs first_pos last_pos it rule: insert_range_loop.induct)
  case (1 t xs first_pos last_pos it)
  show ?case
  proof (cases "it < length xs")
    case True
    with 1 show ?thesis
      by (subst insert_range_loop.simps) simp
  next
    case False
    with 1 show ?thesis
      by (subst insert_range_loop.simps) simp
  qed
qed

text \<open>
  C9. The overload \<open>insert(first, last)\<close> should insert the keywords of the range and
  return. On the range that holds the one keyword "a" the loop does not stop after the
  keyword: its test compares \<open>first\<close> with \<open>last\<close>, which never change, and the iterator
  is read at the end of the sequence.
\<close>

theorem insert_range_singleton_past_the_end:
  "insert_range (new_trie default_config) [''a''] 0 1 = Inl Past_the_end"
  by (simp add: insert_range_def insert_range_loop_nonempty)

subsection \<open>Compilation runs once\<close>

text \<open>
  For every argument \<open>TransitionMap\<close>: a compilation that returns sets the flag
  \<open>d_postprocessed\<close>, and \<open>check_postprocess\<close> leaves an automaton with the flag as it
  is. So a scan that returns is repeated by a second scan, on the automaton the first one left.
\<close>

lemma check_postprocess_postprocessed:
  "check_postprocess TM t = Some t1 \<Longrightarrow> d_postprocessed t1"
  by (auto simp: check_postprocess_def split: if_splits option.splits)

lemma check_postprocess_compiled:
  "d_postprocessed t \<Longrightarrow> check_postprocess TM t = Some t"
  by (simp add: check_postprocess_def)

lemma check_postprocess_again:
  "check_postprocess TM t = Some t1 \<Longrightarrow> check_postprocess TM t1 = Some t1"
  by (rule check_postprocess_compiled) (rule check_postprocess_postprocessed)

lemma parse_text_automaton:
  "parse_text TM tolower isalpha t text = Some (t1, es) \<Longrightarrow> check_postprocess TM t = Some t1"
  by (auto simp: parse_text_def split: option.splits if_splits)

lemma parse_text_again:
  assumes "parse_text TM tolower isalpha t text = Some (t1, es)"
  shows "parse_text TM tolower isalpha t1 text = Some (t1, es)"
proof -
  have c: "check_postprocess TM t = Some t1"
    using assms by (rule parse_text_automaton)
  have c1: "check_postprocess TM t1 = Some t1"
    using c by (rule check_postprocess_again)
  show ?thesis
    using assms unfolding parse_text_def [of _ _ _ t] parse_text_def [of _ _ _ t1] c c1 by simp
qed

lemma parse_text_compiled:
  assumes "d_postprocessed t" "parse_text TM tolower isalpha t text = Some (t1, es)"
  shows "t1 = t"
  using parse_text_automaton [OF assms(2)] assms(1) by (simp add: check_postprocess_compiled)

subsection \<open>Insertion keeps the trie\<close>

lemma find_tm_set_transition:
  "find_tm c' (set_transition c n m) = (if c' = c then Some n else find_tm c' m)"
  by (induction c n m rule: set_transition.induct) (auto simp: find_tm_def)

lemma keys_set_transition:
  "set (map fst (set_transition c n m)) = insert c (set (map fst m))"
  by (induction c n m rule: set_transition.induct) auto

lemma sorted_set_transition:
  "sorted_wrt (<) (map fst m) \<Longrightarrow> sorted_wrt (<) (map fst (set_transition c n m))"
proof (induction c n m rule: set_transition.induct)
  case (1 c n)
  then show ?case by simp
next
  case (2 c n k v m)
  show ?case
  proof (cases "c < k")
    case True
    with 2 show ?thesis by (auto intro: less_trans)
  next
    case False
    show ?thesis
    proof (cases "c = k")
      case True
      with 2 show ?thesis by simp
    next
      case ne: False
      with False have "k < c" by simp
      moreover have "sorted_wrt (<) (map fst (set_transition c n m))"
        using 2 False ne by simp
      moreover have "\<forall>x\<in>set (map fst (set_transition c n m)). k < x"
        using 2(2) \<open>k < c\<close> unfolding keys_set_transition by auto
      ultimately show ?thesis using False ne by simp
    qed
  qed
qed

lemma walk_append:
  "walk h p (u @ v) = (case walk h p u of None \<Rightarrow> None | Some q \<Rightarrow> walk h q v)"
  by (induction u arbitrary: p) (auto split: option.splits)

lemma walk_path:
  "trie_inv h pth \<Longrightarrow> p < length h \<Longrightarrow> walk h p w = Some q \<Longrightarrow>
     q < length h \<and> pth q = pth p @ w"
proof (induction w arbitrary: p)
  case Nil
  then show ?case by simp
next
  case (Cons c w)
  from Cons.prems(3) obtain r where r: "find_tm c (d_success (h ! p)) = Some r" and
    w: "walk h r w = Some q"
    by (auto split: option.splits)
  from Cons.prems(1,2) r have "r < length h" "pth r = pth p @ [c]"
    unfolding trie_inv_def by blast+
  with Cons.IH [OF Cons.prems(1) _ w] show ?case by simp
qed

lemma walk_root_path:
  "trie_inv h pth \<Longrightarrow> walk h root w = Some q \<Longrightarrow> q < length h \<and> pth q = w"
  using walk_path [of h pth root w q] unfolding trie_inv_def by (auto simp: root_def)

lemma pth_inj:
  "trie_inv h pth \<Longrightarrow> p < length h \<Longrightarrow> q < length h \<Longrightarrow> pth p = pth q \<Longrightarrow> p = q"
  unfolding trie_inv_def by (metis option.inject)

lemma next_state_ignore_root_state_find [simp]:
  "next_state_ignore_root_state s c = find_tm c (d_success s)"
  by (simp add: next_state_ignore_root_state_def next_state_impl_def split: option.splits)

lemma trie_inv_new: "trie_inv [new_state root 0] (\<lambda>p. [])"
  by (simp add: trie_inv_def new_state_def root_def find_tm_def)

lemma add_state_found:
  "find_tm c (d_success (h ! this)) = Some n \<Longrightarrow> add_state h this c = (h, n)"
  by (simp add: add_state_def)

lemma add_state_new:
  "find_tm c (d_success (h ! this)) = None \<Longrightarrow> this < length h \<Longrightarrow>
     add_state h this c = (grow h this c, length h)"
  by (simp add: add_state_def grow_def Let_def nth_append)

lemma length_grow [simp]: "length (grow h this c) = Suc (length h)"
  by (simp add: grow_def)

lemma grow_nth_new:
  "this < length h \<Longrightarrow> grow h this c ! length h =
     (new_state (length h) (d_depth (h ! this) + 1))\<lparr>d_parent := Some this\<rparr>"
  by (simp add: grow_def nth_append)

lemma grow_nth_this:
  "this < length h \<Longrightarrow> grow h this c ! this =
     (h ! this)\<lparr>d_success := set_transition c (length h) (d_success (h ! this))\<rparr>"
  by (simp add: grow_def nth_append)

lemma grow_nth_other:
  "p < length h \<Longrightarrow> p \<noteq> this \<Longrightarrow> grow h this c ! p = h ! p"
  by (simp add: grow_def nth_append)

lemma grow_find_old:
  assumes "this < length h" "p < length h" "find_tm c (d_success (h ! this)) = None"
    "find_tm c' (d_success (h ! p)) = Some q"
  shows "find_tm c' (d_success (grow h this c ! p)) = Some q"
proof (cases "p = this")
  case True
  with assms have "c' \<noteq> c" by auto
  with True assms show ?thesis
    by (simp add: grow_nth_this find_tm_set_transition)
next
  case False
  with assms show ?thesis by (simp add: grow_nth_other)
qed

lemma grow_walk_old:
  assumes inv: "trie_inv h pth" and thl: "this < length h"
    and nf: "find_tm c (d_success (h ! this)) = None"
  shows "p < length h \<Longrightarrow> walk h p w = Some q \<Longrightarrow> walk (grow h this c) p w = Some q"
proof (induction w arbitrary: p)
  case Nil
  then show ?case by simp
next
  case (Cons c' w)
  from Cons.prems(2) obtain r where r: "find_tm c' (d_success (h ! p)) = Some r" and
    w: "walk h r w = Some q"
    by (auto split: option.splits)
  from inv Cons.prems(1) r have rl: "r < length h"
    unfolding trie_inv_def by blast
  have "find_tm c' (d_success (grow h this c ! p)) = Some r"
    using thl Cons.prems(1) nf r by (rule grow_find_old)
  with Cons.IH [OF rl w] show ?case by simp
qed

lemma grow_inv:
  assumes inv: "trie_inv h pth" and thl: "this < length h"
    and nf: "find_tm c (d_success (h ! this)) = None"
  shows "trie_inv (grow h this c) (pth(length h := pth this @ [c]))"
proof -
  let ?h = "grow h this c" and ?pth = "pth(length h := pth this @ [c])"
  have old: "\<And>p. p < length h \<Longrightarrow> ?pth p = pth p"
    by simp
  have r0: "root < length h"
    using inv by (simp add: trie_inv_def root_def)
  have e: "\<forall>p<length ?h. \<forall>c' q. find_tm c' (d_success (?h ! p)) = Some q \<longrightarrow>
        q < length ?h \<and> ?pth q = ?pth p @ [c']"
  proof (intro allI impI)
    fix p c' q
    assume p: "p < length ?h" and f: "find_tm c' (d_success (?h ! p)) = Some q"
    consider "p = length h" | "p = this" | "p < length h" "p \<noteq> this"
      using p by fastforce
    then show "q < length ?h \<and> ?pth q = ?pth p @ [c']"
    proof cases
      case 1
      with f thl show ?thesis
        by (simp add: grow_nth_new new_state_def find_tm_def)
    next
      case 2
      show ?thesis
      proof (cases "c' = c")
        case True
        with 2 f thl show ?thesis
          by (simp add: grow_nth_this find_tm_set_transition)
      next
        case False
        with 2 f thl have "find_tm c' (d_success (h ! this)) = Some q"
          by (simp add: grow_nth_this find_tm_set_transition)
        with inv thl have "q < length h \<and> pth q = pth this @ [c']"
          unfolding trie_inv_def by blast
        with 2 thl show ?thesis by simp
      qed
    next
      case 3
      with f have "find_tm c' (d_success (h ! p)) = Some q"
        by (simp add: grow_nth_other)
      with inv 3 have "q < length h \<and> pth q = pth p @ [c']"
        unfolding trie_inv_def by blast
      with 3 show ?thesis by simp
    qed
  qed
  have w: "\<forall>p<length ?h. walk ?h root (?pth p) = Some p"
  proof (intro allI impI)
    fix p
    assume p: "p < length ?h"
    show "walk ?h root (?pth p) = Some p"
    proof (cases "p = length h")
      case True
      have "walk h root (pth this) = Some this"
        using inv thl unfolding trie_inv_def by blast
      then have "walk ?h root (pth this) = Some this"
        using grow_walk_old [OF inv thl nf r0] by blast
      then show ?thesis
        using True thl by (simp add: walk_append grow_nth_this find_tm_set_transition)
    next
      case False
      with p have pl: "p < length h" by simp
      have "walk h root (pth p) = Some p"
        using inv pl unfolding trie_inv_def by blast
      then have "walk ?h root (pth p) = Some p"
        using grow_walk_old [OF inv thl nf r0] by blast
      with pl show ?thesis by simp
    qed
  qed
  have r: "\<forall>p<length ?h. d_root (?h ! p) = (if p = root then Some root else None)"
  proof (intro allI impI)
    fix p
    assume p: "p < length ?h"
    consider "p = length h" | "p = this" | "p < length h" "p \<noteq> this"
      using p by fastforce
    then show "d_root (?h ! p) = (if p = root then Some root else None)"
    proof cases
      case 1
      with thl r0 show ?thesis
        by (simp add: grow_nth_new new_state_def)
    next
      case 2
      with thl inv show ?thesis
        by (simp add: grow_nth_this trie_inv_def)
    next
      case 3
      with inv show ?thesis
        by (simp add: grow_nth_other trie_inv_def)
    qed
  qed
  have d: "\<forall>p<length ?h. d_depth (?h ! p) = length (?pth p)"
  proof (intro allI impI)
    fix p
    assume p: "p < length ?h"
    consider "p = length h" | "p = this" | "p < length h" "p \<noteq> this"
      using p by fastforce
    then show "d_depth (?h ! p) = length (?pth p)"
    proof cases
      case 1
      with thl inv show ?thesis
        by (simp add: grow_nth_new new_state_def trie_inv_def)
    next
      case 2
      with thl inv show ?thesis
        by (simp add: grow_nth_this trie_inv_def)
    next
      case 3
      with inv show ?thesis
        by (simp add: grow_nth_other trie_inv_def)
    qed
  qed
  have s: "\<forall>p<length ?h. sorted_wrt (<) (map fst (d_success (?h ! p)))"
  proof (intro allI impI)
    fix p
    assume p: "p < length ?h"
    consider "p = length h" | "p = this" | "p < length h" "p \<noteq> this"
      using p by fastforce
    then show "sorted_wrt (<) (map fst (d_success (?h ! p)))"
    proof cases
      case 1
      with thl show ?thesis
        by (simp add: grow_nth_new new_state_def)
    next
      case 2
      with thl inv show ?thesis
        by (simp add: grow_nth_this trie_inv_def sorted_set_transition)
    next
      case 3
      with inv show ?thesis
        by (simp add: grow_nth_other trie_inv_def)
    qed
  qed
  have "?h \<noteq> []" "?pth root = []"
    using inv r0 by (auto simp: grow_def trie_inv_def)
  with e w r d s show ?thesis
    unfolding trie_inv_def by blast
qed

lemma grow_emits_old:
  "this < length h \<Longrightarrow> p < length h \<Longrightarrow> d_emits (grow h this c ! p) = d_emits (h ! p)"
  by (cases "p = this") (simp_all add: grow_nth_this grow_nth_other)

lemma grow_emits_new:
  "this < length h \<Longrightarrow> d_emits (grow h this c ! length h) = []"
  by (simp add: grow_nth_new new_state_def)

lemma insert_path_walk:
  "walk h cur kw = Some q \<Longrightarrow> insert_path h cur kw = (h, q)"
  by (induction kw arbitrary: cur) (auto simp: add_state_found split: option.splits)

lemma insert_path_inv:
  assumes "trie_inv h pth" "cur < length h" "insert_path h cur kw = (h', p)"
  shows "\<exists>pth'. trie_inv h' pth' \<and> (\<forall>q<length h. pth' q = pth q) \<and> p < length h' \<and>
           pth' p = pth cur @ kw \<and> length h \<le> length h' \<and>
           (\<forall>q<length h. d_emits (h' ! q) = d_emits (h ! q)) \<and>
           (\<forall>q. length h \<le> q \<and> q < length h' \<longrightarrow> d_emits (h' ! q) = [])"
  using assms
proof (induction kw arbitrary: h pth cur)
  case Nil
  then show ?case by auto
next
  case (Cons c kw)
  show ?case
  proof (cases "find_tm c (d_success (h ! cur))")
    case (Some n)
    with Cons.prems have n: "n < length h" "pth n = pth cur @ [c]"
      unfolding trie_inv_def by blast+
    from Some Cons.prems(3) have "insert_path h n kw = (h', p)"
      by (simp add: add_state_found)
    from Cons.IH [OF Cons.prems(1) n(1) this] n(2) show ?thesis
      by auto
  next
    case None
    let ?h1 = "grow h cur c" and ?pth1 = "pth(length h := pth cur @ [c])"
    have inv1: "trie_inv ?h1 ?pth1"
      using Cons.prems(1,2) None by (rule grow_inv)
    from None Cons.prems(2,3) have ip: "insert_path ?h1 (length h) kw = (h', p)"
      by (simp add: add_state_new)
    from Cons.IH [OF inv1 _ ip] obtain pth' where
      a: "trie_inv h' pth'" and b: "\<forall>q<length ?h1. pth' q = ?pth1 q" and c: "p < length h'" and
      d: "pth' p = ?pth1 (length h) @ kw" and e: "length ?h1 \<le> length h'" and
      f: "\<forall>q<length ?h1. d_emits (h' ! q) = d_emits (?h1 ! q)" and
      g: "\<forall>q. length ?h1 \<le> q \<and> q < length h' \<longrightarrow> d_emits (h' ! q) = []"
      by auto
    have b': "\<forall>q<length h. pth' q = pth q"
      using b by simp
    have d': "pth' p = pth cur @ c # kw"
      using d by simp
    have e': "length h \<le> length h'"
      using e by simp
    have f': "\<forall>q<length h. d_emits (h' ! q) = d_emits (h ! q)"
      using f Cons.prems(2) by (simp add: grow_emits_old)
    have g': "\<forall>q. length h \<le> q \<and> q < length h' \<longrightarrow> d_emits (h' ! q) = []"
    proof (intro allI impI)
      fix q
      assume q: "length h \<le> q \<and> q < length h'"
      show "d_emits (h' ! q) = []"
      proof (cases "q = length h")
        case True
        with f Cons.prems(2) show ?thesis
          by (simp add: grow_emits_new)
      next
        case False
        with q g show ?thesis by simp
      qed
    qed
    from a b' c d' e' f' g' show ?thesis
      by blast
  qed
qed

lemma insert_path_fresh:
  assumes inv: "trie_inv h pth" and cur: "cur < length h"
    and ip: "insert_path h cur kw = (h', p)" and nw: "walk h cur kw = None"
  shows "length h \<le> p"
proof (rule ccontr)
  assume "\<not> length h \<le> p"
  then have pl: "p < length h" by simp
  from insert_path_inv [OF inv cur ip] obtain pth' where
    b: "\<forall>q<length h. pth' q = pth q" and d: "pth' p = pth cur @ kw"
    by auto
  from b pl d have "pth p = pth cur @ kw" by simp
  moreover have "walk h root (pth p) = Some p" "walk h root (pth cur) = Some cur"
    using inv pl cur unfolding trie_inv_def by blast+
  ultimately have "walk h cur kw = Some p"
    by (simp add: walk_append)
  with nw show False by simp
qed

lemma same_topology_refl [simp]: "same_topology h h"
  by (simp add: same_topology_def)

lemma same_topology_trans:
  "same_topology h h1 \<Longrightarrow> same_topology h1 h2 \<Longrightarrow> same_topology h h2"
  by (simp add: same_topology_def)

lemma same_topology_update:
  "d_success s = d_success (h ! p) \<Longrightarrow> d_root s = d_root (h ! p) \<Longrightarrow>
   d_depth s = d_depth (h ! p) \<Longrightarrow> same_topology h (h[p := s])"
  unfolding same_topology_def
proof (intro conjI allI impI)
  fix q
  assume a: "d_success s = d_success (h ! p)" "d_root s = d_root (h ! p)"
    "d_depth s = d_depth (h ! p)" "q < length h"
  show "d_success (h[p := s] ! q) = d_success (h ! q)"
    using a by (cases "q = p") simp_all
  show "d_root (h[p := s] ! q) = d_root (h ! q)"
    using a by (cases "q = p") simp_all
  show "d_depth (h[p := s] ! q) = d_depth (h ! q)"
    using a by (cases "q = p") simp_all
qed simp

lemma same_topology_walk:
  assumes "trie_inv h pth" "same_topology h h'"
  shows "p < length h \<Longrightarrow> walk h' p w = walk h p w"
proof (induction w arbitrary: p)
  case Nil
  then show ?case by simp
next
  case (Cons c w)
  have eq: "d_success (h' ! p) = d_success (h ! p)"
    using assms(2) Cons.prems by (simp add: same_topology_def)
  show ?case
  proof (cases "find_tm c (d_success (h ! p))")
    case None
    with eq show ?thesis by simp
  next
    case (Some q)
    with assms(1) Cons.prems have "q < length h"
      unfolding trie_inv_def by blast
    with Cons.IH [of q] Some eq show ?thesis by simp
  qed
qed

lemma same_topology_inv:
  assumes "trie_inv h pth" "same_topology h h'"
  shows "trie_inv h' pth"
proof -
  have l: "length h' = length h"
    using assms(2) by (simp add: same_topology_def)
  have r0: "root < length h"
    using assms(1) by (simp add: trie_inv_def root_def)
  have w: "\<And>w. walk h' root w = walk h root w"
    using same_topology_walk [OF assms r0] .
  have f: "\<And>p. p < length h \<Longrightarrow> d_success (h' ! p) = d_success (h ! p) \<and>
      d_root (h' ! p) = d_root (h ! p) \<and> d_depth (h' ! p) = d_depth (h ! p)"
    using assms(2) by (simp add: same_topology_def)
  have "h' \<noteq> []"
    using l assms(1) by (auto simp: trie_inv_def)
  with assms(1) show ?thesis
    unfolding trie_inv_def l w by (simp add: f)
qed

lemma all_emits_extend:
  assumes "length h \<le> length h'" "\<forall>q<length h. d_emits (h' ! q) = d_emits (h ! q)"
    "\<forall>q. length h \<le> q \<and> q < length h' \<longrightarrow> d_emits (h' ! q) = []"
  shows "all_emits h' = all_emits h"
proof -
  have "map d_emits h' = map d_emits h @ replicate (length h' - length h) []"
    using assms by (intro nth_equalityI) (auto simp: nth_append)
  then show ?thesis
    by (simp add: all_emits_def)
qed

lemma all_emits_add:
  assumes "p < length h"
  shows "mset (all_emits (h[p := add_emit kw i (h ! p)])) = mset (all_emits h) + {#(kw, i)#}"
proof -
  have h: "h = take p h @ h ! p # drop (Suc p) h"
    using assms by (rule id_take_nth_drop)
  have "h[p := add_emit kw i (h ! p)] = take p h @ add_emit kw i (h ! p) # drop (Suc p) h"
    using assms by (rule upd_conv_take_nth_drop)
  then have "mset (all_emits (h[p := add_emit kw i (h ! p)])) =
      mset (all_emits (take p h)) + mset (d_emits (h ! p)) + {#(kw, i)#} + mset (all_emits (drop (Suc p) h))"
    by (simp add: all_emits_def add_emit_def)
  moreover have "mset (all_emits h) =
      mset (all_emits (take p h)) + mset (d_emits (h ! p)) + mset (all_emits (drop (Suc p) h))"
    by (subst h) (simp add: all_emits_def)
  ultimately show ?thesis by simp
qed

lemma all_emits_mem:
  "e \<in> set (all_emits h) \<longleftrightarrow> (\<exists>p<length h. e \<in> set (d_emits (h ! p)))"
proof -
  have "e \<in> set (all_emits h) \<longleftrightarrow> (\<exists>s\<in>set h. e \<in> set (d_emits s))"
    by (auto simp: all_emits_def)
  also have "\<dots> \<longleftrightarrow> (\<exists>p<length h. e \<in> set (d_emits (h ! p)))"
    by (metis in_set_conv_nth)
  finally show ?thesis .
qed

text \<open>What one call of insert does to an automaton that satisfies the invariant.\<close>

lemma insert_trie_emits_before:
  assumes inv: "trie_inv (states t) pth" and ip: "insert_path (states t) root kw = (h, cur)"
  shows "d_emits (h ! cur) =
     (case walk (states t) root kw of None \<Rightarrow> [] | Some p \<Rightarrow> d_emits (states t ! p))"
proof (cases "walk (states t) root kw")
  case None
  have r0: "root < length (states t)"
    using inv by (simp add: trie_inv_def root_def)
  have "length (states t) \<le> cur"
    using inv r0 ip None by (rule insert_path_fresh)
  moreover from insert_path_inv [OF inv r0 ip] have "cur < length h"
    "\<forall>q. length (states t) \<le> q \<and> q < length h \<longrightarrow> d_emits (h ! q) = []"
    by auto
  ultimately show ?thesis using None by simp
next
  case (Some p)
  then have "insert_path (states t) root kw = (states t, p)"
    by (rule insert_path_walk)
  with ip Some show ?thesis by simp
qed

lemma insert_path_facts:
  assumes inv: "trie_inv (states t) pth" and ip: "insert_path (states t) root kw = (h, cur)"
  shows "\<exists>pth'. trie_inv h pth' \<and> (\<forall>q<length (states t). pth' q = pth q) \<and> cur < length h \<and>
     pth' cur = kw \<and> walk h root kw = Some cur \<and> all_emits h = all_emits (states t) \<and>
     length (states t) \<le> length h \<and>
     (\<forall>q<length (states t). d_emits (h ! q) = d_emits (states t ! q)) \<and>
     (\<forall>q. length (states t) \<le> q \<and> q < length h \<longrightarrow> d_emits (h ! q) = [])"
proof -
  have r0: "root < length (states t)" and p0: "pth root = []"
    using inv by (simp_all add: trie_inv_def root_def)
  from insert_path_inv [OF inv r0 ip] obtain pth' where
    a: "trie_inv h pth'" and b: "\<forall>q<length (states t). pth' q = pth q" and c: "cur < length h" and
    d: "pth' cur = pth root @ kw" and e: "length (states t) \<le> length h" and
    f: "\<forall>q<length (states t). d_emits (h ! q) = d_emits (states t ! q)" and
    g: "\<forall>q. length (states t) \<le> q \<and> q < length h \<longrightarrow> d_emits (h ! q) = []"
    by auto
  have d': "pth' cur = kw"
    using d p0 by simp
  have "walk h root (pth' cur) = Some cur"
    using a c unfolding trie_inv_def by blast
  then have w: "walk h root kw = Some cur"
    using d' by simp
  have ae: "all_emits h = all_emits (states t)"
    using e f g by (rule all_emits_extend)
  from a b c d' w ae e f g show ?thesis
    by blast
qed

lemma emits_inv_extend:
  assumes "emits_inv h pth" "length h \<le> length h'" "\<forall>q<length h. pth' q = pth q"
    "\<forall>q<length h. d_emits (h' ! q) = d_emits (h ! q)"
    "\<forall>q. length h \<le> q \<and> q < length h' \<longrightarrow> d_emits (h' ! q) = []"
  shows "emits_inv h' pth'"
  unfolding emits_inv_def
proof (intro allI impI ballI)
  fix p e
  assume p: "p < length h'" and e: "e \<in> set (d_emits (h' ! p))"
  show "fst e = pth' p \<and> pth' p \<noteq> []"
  proof (cases "p < length h")
    case True
    with assms e show ?thesis
      unfolding emits_inv_def by force
  next
    case False
    with assms(5) p e show ?thesis by simp
  qed
qed

lemma emits_inv_add:
  assumes "emits_inv h pth" "cur < length h" "pth cur = kw" "kw \<noteq> []"
  shows "emits_inv (h[cur := add_emit kw i (h ! cur)]) pth"
  unfolding emits_inv_def
proof (intro allI impI ballI)
  fix p e
  assume p: "p < length (h[cur := add_emit kw i (h ! cur)])"
    and e: "e \<in> set (d_emits (h[cur := add_emit kw i (h ! cur)] ! p))"
  show "fst e = pth p \<and> pth p \<noteq> []"
  proof (cases "p = cur")
    case True
    with assms e show ?thesis
      by (auto simp: emits_inv_def add_emit_def)
  next
    case False
    with assms p e show ?thesis
      unfolding emits_inv_def by force
  qed
qed

lemma same_topology_add_emit: "same_topology h (h[cur := add_emit kw i (h ! cur)])"
  by (rule same_topology_update) (simp_all add: add_emit_def)

lemma insert_trie_pre_inv:
  assumes "pre_inv t pth"
  shows "\<exists>pth'. pre_inv (fst (insert_trie t kw)) pth'"
proof (cases "kw = []")
  case True
  with assms show ?thesis
    by (auto simp: insert_trie_def)
next
  case False
  obtain h cur where ip: "insert_path (states t) root kw = (h, cur)"
    by (cases "insert_path (states t) root kw")
  have inv: "trie_inv (states t) pth" and ei: "emits_inv (states t) pth"
    using assms by (simp_all add: pre_inv_def)
  from insert_path_facts [OF inv ip] obtain pth' where
    a: "trie_inv h pth'" and b: "\<forall>q<length (states t). pth' q = pth q" and c: "cur < length h" and
    d: "pth' cur = kw" and e: "length (states t) \<le> length h" and
    f: "\<forall>q<length (states t). d_emits (h ! q) = d_emits (states t ! q)" and
    g: "\<forall>q. length (states t) \<le> q \<and> q < length h \<longrightarrow> d_emits (h ! q) = []"
    by blast
  have ei': "emits_inv h pth'"
    using ei e b f g by (rule emits_inv_extend)
  have one: "\<not> d_allow_substrings (d_config t) \<Longrightarrow> \<forall>p<length h. length (d_emits (h ! p)) \<le> 1"
  proof (intro allI impI)
    fix p
    assume na: "\<not> d_allow_substrings (d_config t)" and p: "p < length h"
    show "length (d_emits (h ! p)) \<le> 1"
    proof (cases "p < length (states t)")
      case True
      with assms na f show ?thesis
        by (simp add: pre_inv_def)
    next
      case False
      with g p show ?thesis by simp
    qed
  qed
  show ?thesis
  proof (cases "0 = length (d_emits (h ! cur)) \<or> d_allow_substrings (d_config t)")
    case True
    let ?h2 = "h[cur := add_emit kw (d_num_keywords t) (h ! cur)]"
    have t': "fst (insert_trie t kw) = t\<lparr>states := ?h2, d_num_keywords := d_num_keywords t + 1\<rparr>"
      using False ip True by (simp add: insert_trie_def)
    have "trie_inv ?h2 pth'"
      using a same_topology_add_emit by (rule same_topology_inv)
    moreover have "emits_inv ?h2 pth'"
      using ei' c d False by (rule emits_inv_add)
    moreover have "\<not> d_allow_substrings (d_config t) \<Longrightarrow>
        \<forall>p<length ?h2. length (d_emits (?h2 ! p)) \<le> 1"
    proof (intro allI impI)
      fix p
      assume na: "\<not> d_allow_substrings (d_config t)" and p: "p < length ?h2"
      show "length (d_emits (?h2 ! p)) \<le> 1"
      proof (cases "p = cur")
        case pc: True
        with True na c show ?thesis
          by (simp add: add_emit_def)
      next
        case pc: False
        with one [OF na] p show ?thesis by simp
      qed
    qed
    ultimately show ?thesis
      unfolding t' pre_inv_def by auto
  next
    case rej: False
    have t': "fst (insert_trie t kw) = t\<lparr>states := h\<rparr>"
      using False ip rej by (simp add: insert_trie_def)
    show ?thesis
      unfolding t' pre_inv_def using a ei' one by auto
  qed
qed

lemma insert_trie_config [simp]: "d_config (fst (insert_trie t kw)) = d_config t"
  by (auto simp: insert_trie_def split: prod.splits)

lemma inserts_pre_inv:
  "pre_inv t pth \<Longrightarrow> \<exists>pth'. pre_inv (inserts t kws) pth'"
proof (induction kws arbitrary: t pth)
  case Nil
  then show ?case by (auto simp: inserts_def)
next
  case (Cons kw kws)
  from insert_trie_pre_inv [OF Cons.prems] obtain pth1 where "pre_inv (fst (insert_trie t kw)) pth1"
    by blast
  from Cons.IH [OF this] show ?case
    by (simp add: inserts_def)
qed

lemma inserts_config [simp]: "d_config (inserts t kws) = d_config t"
  by (induction kws arbitrary: t) (simp_all add: inserts_def)

lemma new_trie_pre_inv: "pre_inv (new_trie cfg) (\<lambda>p. [])"
  using trie_inv_new by (simp add: pre_inv_def new_trie_def emits_inv_def new_state_def)

lemma built_pre_inv: "\<exists>pth. pre_inv (inserts (new_trie cfg) kws) pth"
  using inserts_pre_inv [OF new_trie_pre_inv] .

lemma insert_trie_step:
  assumes inv: "trie_inv (states t) pth"
  shows "mset (all_emits (states (fst (insert_trie t kw)))) =
           mset (all_emits (states t)) +
           (if kw \<noteq> [] \<and> snd (insert_trie t kw) \<noteq> None then {#(kw, d_num_keywords t)#} else {#}) \<and>
         d_num_keywords (fst (insert_trie t kw)) =
           d_num_keywords t + (if kw \<noteq> [] \<and> snd (insert_trie t kw) \<noteq> None then 1 else 0)"
proof (cases "kw = []")
  case True
  then show ?thesis by (simp add: insert_trie_def)
next
  case False
  obtain h cur where ip: "insert_path (states t) root kw = (h, cur)"
    by (cases "insert_path (states t) root kw")
  from insert_path_facts [OF inv ip] have c: "cur < length h" and
    ae: "all_emits h = all_emits (states t)"
    by blast+
  show ?thesis
  proof (cases "0 = length (d_emits (h ! cur)) \<or> d_allow_substrings (d_config t)")
    case True
    then have "insert_trie t kw =
        (t\<lparr>states := h[cur := add_emit kw (d_num_keywords t) (h ! cur)],
           d_num_keywords := d_num_keywords t + 1\<rparr>, Some cur)"
      using False ip by (simp add: insert_trie_def)
    then show ?thesis
      using False c ae by (simp add: all_emits_add)
  next
    case rej: False
    then have "insert_trie t kw = (t\<lparr>states := h\<rparr>, None)"
      using False ip by (simp add: insert_trie_def)
    then show ?thesis
      using ae by simp
  qed
qed

lemma accepted_Cons:
  "accepted t (kw # kws) =
     (if kw \<noteq> [] \<and> snd (insert_trie t kw) \<noteq> None then [kw] else []) @
     accepted (fst (insert_trie t kw)) kws"
  by (cases "insert_trie t kw") simp

lemma inserts_Cons: "inserts t (kw # kws) = inserts (fst (insert_trie t kw)) kws"
  by (simp add: inserts_def)

lemma zip_shift:
  "zip xs (map f [Suc 0..<Suc n]) = zip xs (map (\<lambda>k. f (Suc k)) [0..<n])"
proof -
  have "map f [Suc 0..<Suc n] = map (\<lambda>k. f (Suc k)) [0..<n]"
    by (simp add: map_Suc_upt [symmetric] del: upt_Suc)
  then show ?thesis by simp
qed

lemma inserts_emits:
  assumes "pre_inv t pth"
  shows "mset (all_emits (states (inserts t kws))) =
           mset (all_emits (states t)) +
           mset (zip (accepted t kws)
                  (map (\<lambda>k. d_num_keywords t + of_nat k) [0..<length (accepted t kws)])) \<and>
         d_num_keywords (inserts t kws) = d_num_keywords t + of_nat (length (accepted t kws))"
  using assms
proof (induction kws arbitrary: t pth)
  case Nil
  then show ?case by (simp add: inserts_def)
next
  case (Cons kw kws)
  let ?t1 = "fst (insert_trie t kw)"
  have inv: "trie_inv (states t) pth"
    using Cons.prems by (simp add: pre_inv_def)
  from insert_trie_pre_inv [OF Cons.prems] obtain pth1 where p1: "pre_inv ?t1 pth1"
    by blast
  note ih = Cons.IH [OF p1]
  note st = insert_trie_step [OF inv, of kw]
  show ?case
  proof (cases "kw \<noteq> [] \<and> snd (insert_trie t kw) \<noteq> None")
    case True
    then have acc: "accepted t (kw # kws) = kw # accepted ?t1 kws"
      unfolding accepted_Cons by simp
    have n1: "d_num_keywords ?t1 = d_num_keywords t + 1"
      using st True by simp
    have "zip (kw # accepted ?t1 kws)
            (map (\<lambda>k. d_num_keywords t + of_nat k) [0..<Suc (length (accepted ?t1 kws))]) =
          (kw, d_num_keywords t) #
            zip (accepted ?t1 kws)
              (map (\<lambda>k. d_num_keywords ?t1 + of_nat k) [0..<length (accepted ?t1 kws)])"
      unfolding upt_conv_Cons [OF zero_less_Suc] n1
      by (simp add: zip_shift add.assoc del: upt_Suc)
    with ih st True show ?thesis
      unfolding inserts_Cons acc by (simp add: n1 add.assoc)
  next
    case False
    then have acc: "accepted t (kw # kws) = accepted ?t1 kws"
      unfolding accepted_Cons by auto
    from ih st False show ?thesis
      unfolding inserts_Cons acc by auto
  qed
qed

lemma built_emits:
  "mset (all_emits (states (inserts (new_trie cfg) kws))) =
     mset (zip (accepted (new_trie cfg) kws)
             (map of_nat [0..<length (accepted (new_trie cfg) kws)])) \<and>
   d_num_keywords (inserts (new_trie cfg) kws) = of_nat (length (accepted (new_trie cfg) kws))"
proof -
  have "all_emits (states (new_trie cfg :: 'a basic_trie)) = []"
    "d_num_keywords (new_trie cfg :: 'a basic_trie) = 0"
    by (simp_all add: new_trie_def all_emits_def new_state_def)
  with inserts_emits [OF new_trie_pre_inv, of cfg kws] show ?thesis
    by simp
qed

lemma one_index:
  assumes "pre_inv t pth" "\<not> d_allow_substrings (d_config t)"
    "(k, i) \<in> set (all_emits (states t))" "(k, j) \<in> set (all_emits (states t))"
  shows "i = j"
proof -
  from assms(3,4) obtain p q where p: "p < length (states t)" "(k, i) \<in> set (d_emits (states t ! p))"
    and q: "q < length (states t)" "(k, j) \<in> set (d_emits (states t ! q))"
    unfolding all_emits_mem by blast
  have "pth p = k" "pth q = k"
    using assms(1) p q unfolding pre_inv_def emits_inv_def by force+
  then have "p = q"
    using assms(1) p(1) q(1) pth_inj [of "states t" pth p q] by (simp add: pre_inv_def)
  moreover have "length (d_emits (states t ! p)) \<le> 1"
    using assms(1,2) p(1) by (simp add: pre_inv_def)
  ultimately show ?thesis
    using p(2) q(2) by (cases "d_emits (states t ! p)") auto
qed

lemma of_nat_32_inj:
  assumes "(of_nat i :: 32 word) = of_nat n" "i < 2 ^ 32" "n < 2 ^ 32"
  shows "i = n"
proof -
  have "unat (of_nat i :: 32 word) = unat (of_nat n :: 32 word)"
    using assms(1) by simp
  then show ?thesis
    using assms(2,3) by (simp add: unat_of_nat)
qed

lemma built_unused:
  assumes "t = inserts (new_trie cfg) kws" "length (all_emits (states t)) < 2 ^ 32"
  shows "d_num_keywords t \<notin> snd ` set (all_emits (states t))"
proof
  let ?acc = "accepted (new_trie cfg) kws"
  let ?z = "zip ?acc (map of_nat [0..<length ?acc]) :: ('a list \<times> 32 word) list"
  assume "d_num_keywords t \<in> snd ` set (all_emits (states t))"
  then obtain k where k: "(k, d_num_keywords t) \<in> set (all_emits (states t))"
    by force
  have m: "mset (all_emits (states t)) = mset ?z" and n: "d_num_keywords t = of_nat (length ?acc)"
    using built_emits [of cfg kws] assms(1) by simp_all
  have "length (all_emits (states t)) = length ?z"
    using m by (metis size_mset)
  then have l: "length ?acc < 2 ^ 32"
    using assms(2) by simp
  have "(k, d_num_keywords t) \<in> set ?z"
    using k m by (metis set_mset_mset)
  then obtain i where i: "i < length ?acc" "(of_nat i :: 32 word) = d_num_keywords t"
    by (auto simp: in_set_zip)
  with n l have "i = length ?acc"
    by (intro of_nat_32_inj) simp_all
  with i(1) show False by simp
qed

subsection \<open>The result of an insertion\<close>

text \<open>
  C6. Let \<open>t\<close> be an automaton built by calls of \<open>insert\<close> and not compiled. A call of
  \<open>insert\<close> with the empty keyword returns the root and leaves \<open>t\<close> as it is. A call with
  a non-empty keyword returns the null pointer exactly when substrings are disallowed and the
  state at the end of the keyword's path exists in \<open>t\<close> with an emit; \<open>t\<close> is then
  unchanged. Otherwise the call returns the state at the end of the path of the keyword, whose
  emits are those it had in \<open>t\<close> (none if it is new) followed by the keyword with the index
  \<open>d_num_keywords t\<close>; the emits of the other states are unchanged, the counter is
  incremented, and, as long as less than \<open>2 ^ 32\<close> emits are stored, the index is not used
  by any emit of \<open>t\<close>.
\<close>

theorem insert_keyword_result:
  assumes "t = inserts (new_trie cfg) kws" and "t1 = fst (insert_trie t keyword)"
    and "r = snd (insert_trie t keyword)"
  shows "(keyword = [] \<longrightarrow> r = Some root \<and> t1 = t) \<and>
     (keyword \<noteq> [] \<longrightarrow>
        (r = None \<longleftrightarrow> \<not> d_allow_substrings (d_config t) \<and>
           (\<exists>p. walk (states t) root keyword = Some p \<and> d_emits (states t ! p) \<noteq> [])) \<and>
        (r = None \<longrightarrow> t1 = t) \<and>
        (r \<noteq> None \<longrightarrow>
           (\<exists>cur. r = Some cur \<and> walk (states t1) root keyword = Some cur \<and>
              d_emits (states t1 ! cur) =
                (case walk (states t) root keyword of None \<Rightarrow> []
                 | Some p \<Rightarrow> d_emits (states t ! p)) @ [(keyword, d_num_keywords t)] \<and>
              (\<forall>q<length (states t). q \<noteq> cur \<longrightarrow> d_emits (states t1 ! q) = d_emits (states t ! q)) \<and>
              d_num_keywords t1 = d_num_keywords t + 1 \<and>
              (length (all_emits (states t)) < 2 ^ 32 \<longrightarrow>
                 d_num_keywords t \<notin> snd ` set (all_emits (states t))))))"
proof (intro conjI impI)
  assume "keyword = []"
  then show "r = Some root" "t1 = t"
    using assms by (simp_all add: insert_trie_def)
next
  assume ne: "keyword \<noteq> []"
  from built_pre_inv [of cfg kws] assms(1) obtain pth where pre: "pre_inv t pth"
    by blast
  then have inv: "trie_inv (states t) pth"
    by (simp add: pre_inv_def)
  obtain h cur where ip: "insert_path (states t) root keyword = (h, cur)"
    by (cases "insert_path (states t) root keyword")
  note before = insert_trie_emits_before [OF inv ip]
  from insert_path_facts [OF inv ip] obtain pth' where
    a: "trie_inv h pth'" and c: "cur < length h" and w: "walk h root keyword = Some cur" and
    f: "\<forall>q<length (states t). d_emits (h ! q) = d_emits (states t ! q)"
    by blast
  have r: "r = (if 0 = length (d_emits (h ! cur)) \<or> d_allow_substrings (d_config t)
                then Some cur else None)"
    using assms(3) ne ip by (simp add: insert_trie_def)
  have ex: "d_emits (h ! cur) \<noteq> [] \<longleftrightarrow>
      (\<exists>p. walk (states t) root keyword = Some p \<and> d_emits (states t ! p) \<noteq> [])"
    unfolding before by (cases "walk (states t) root keyword") simp_all
  show rn: "r = None \<longleftrightarrow> \<not> d_allow_substrings (d_config t) \<and>
           (\<exists>p. walk (states t) root keyword = Some p \<and> d_emits (states t ! p) \<noteq> [])"
    unfolding r ex [symmetric] by auto
  show "t1 = t" if "r = None"
  proof -
    from that rn obtain p where "walk (states t) root keyword = Some p"
      by blast
    then have "insert_path (states t) root keyword = (states t, p)"
      by (rule insert_path_walk)
    with ip have "h = states t" by simp
    moreover have "t1 = t\<lparr>states := h\<rparr>"
      using that r assms(2) ne ip by (auto simp: insert_trie_def split: if_splits)
    ultimately show ?thesis by simp
  qed
  show "\<exists>cur. r = Some cur \<and> walk (states t1) root keyword = Some cur \<and>
              d_emits (states t1 ! cur) =
                (case walk (states t) root keyword of None \<Rightarrow> []
                 | Some p \<Rightarrow> d_emits (states t ! p)) @ [(keyword, d_num_keywords t)] \<and>
              (\<forall>q<length (states t). q \<noteq> cur \<longrightarrow> d_emits (states t1 ! q) = d_emits (states t ! q)) \<and>
              d_num_keywords t1 = d_num_keywords t + 1 \<and>
              (length (all_emits (states t)) < 2 ^ 32 \<longrightarrow>
                 d_num_keywords t \<notin> snd ` set (all_emits (states t)))" if "r \<noteq> None"
  proof -
    let ?h2 = "h[cur := add_emit keyword (d_num_keywords t) (h ! cur)]"
    from that r have acc: "0 = length (d_emits (h ! cur)) \<or> d_allow_substrings (d_config t)"
      and rc: "r = Some cur"
      by (auto split: if_splits)
    have t1: "t1 = t\<lparr>states := ?h2, d_num_keywords := d_num_keywords t + 1\<rparr>"
      using acc assms(2) ne ip by (simp add: insert_trie_def)
    have r0: "root < length h"
      using a by (simp add: trie_inv_def root_def)
    have "walk ?h2 root keyword = walk h root keyword"
      using a same_topology_add_emit r0 by (rule same_topology_walk)
    with w have w2: "walk (states t1) root keyword = Some cur"
      by (simp add: t1)
    have e2: "d_emits (states t1 ! cur) =
                (case walk (states t) root keyword of None \<Rightarrow> []
                 | Some p \<Rightarrow> d_emits (states t ! p)) @ [(keyword, d_num_keywords t)]"
      using c before by (simp add: t1 add_emit_def)
    have o2: "\<forall>q<length (states t). q \<noteq> cur \<longrightarrow> d_emits (states t1 ! q) = d_emits (states t ! q)"
      using f by (simp add: t1)
    have n2: "d_num_keywords t1 = d_num_keywords t + 1"
      by (simp add: t1)
    have u2: "length (all_emits (states t)) < 2 ^ 32 \<longrightarrow>
                 d_num_keywords t \<notin> snd ` set (all_emits (states t))"
      using built_unused [OF assms(1)] by blast
    from rc w2 e2 o2 n2 u2 show ?thesis
      by blast
  qed
qed

theorem insert_keyword_result_witness:
  "insert_trie (inserts (new_trie default_config) [''he'']) [] =
     (inserts (new_trie default_config) [''he''], Some root) \<and>
   insert_trie (inserts (new_trie no_substrings_config) [''he'']) ''he'' =
     (inserts (new_trie no_substrings_config) [''he''], None) \<and>
   (\<exists>cur. snd (insert_trie (inserts (new_trie default_config) [''he'']) ''he'') = Some cur \<and>
      d_emits (states (fst (insert_trie (inserts (new_trie default_config) [''he'']) ''he'')) ! cur) =
        [(''he'', 0), (''he'', 1)])"
proof (intro conjI)
  let ?t = "inserts (new_trie default_config) [''he''] :: char basic_trie"
  let ?n = "inserts (new_trie no_substrings_config) [''he''] :: char basic_trie"
  from insert_keyword_result [OF refl refl refl, where cfg = default_config and kws = "[''he'']"
      and keyword = "[] :: string"]
  have "snd (insert_trie ?t []) = Some root \<and> fst (insert_trie ?t []) = ?t"
    by simp
  then show "insert_trie ?t [] = (?t, Some root)"
    by (metis prod.collapse)
  have n1: "\<not> d_allow_substrings (d_config ?n)"
    by code_simp
  have n2: "walk (states ?n) root ''he'' = Some 2"
    by code_simp
  have n3: "d_emits (states ?n ! 2) \<noteq> []"
    by code_simp
  from insert_keyword_result [OF refl refl refl, where cfg = no_substrings_config and kws = "[''he'']"
      and keyword = "''he''"]
  have "(snd (insert_trie ?n ''he'') = None \<longleftrightarrow> \<not> d_allow_substrings (d_config ?n) \<and>
           (\<exists>p. walk (states ?n) root ''he'' = Some p \<and> d_emits (states ?n ! p) \<noteq> [])) \<and>
        (snd (insert_trie ?n ''he'') = None \<longrightarrow> fst (insert_trie ?n ''he'') = ?n)"
    by simp
  with n1 n2 n3 have "snd (insert_trie ?n ''he'') = None \<and> fst (insert_trie ?n ''he'') = ?n"
    by blast
  then show "insert_trie ?n ''he'' = (?n, None)"
    by (metis prod.collapse)
  have t1: "d_allow_substrings (d_config ?t)"
    by code_simp
  have t2: "(case walk (states ?t) root ''he'' of None \<Rightarrow> [] | Some p \<Rightarrow> d_emits (states ?t ! p)) @
      [(''he'', d_num_keywords ?t)] = [(''he'', 0), (''he'', 1)]"
    by code_simp
  from insert_keyword_result [OF refl refl refl, where cfg = default_config and kws = "[''he'']"
      and keyword = "''he''"]
  have "(snd (insert_trie ?t ''he'') = None \<longleftrightarrow> \<not> d_allow_substrings (d_config ?t) \<and>
           (\<exists>p. walk (states ?t) root ''he'' = Some p \<and> d_emits (states ?t ! p) \<noteq> [])) \<and>
        (snd (insert_trie ?t ''he'') \<noteq> None \<longrightarrow>
           (\<exists>cur. snd (insert_trie ?t ''he'') = Some cur \<and>
              d_emits (states (fst (insert_trie ?t ''he'')) ! cur) =
                (case walk (states ?t) root ''he'' of None \<Rightarrow> []
                 | Some p \<Rightarrow> d_emits (states ?t ! p)) @ [(''he'', d_num_keywords ?t)]))"
    by auto
  with t1 show "\<exists>cur. snd (insert_trie ?t ''he'') = Some cur \<and>
      d_emits (states (fst (insert_trie ?t ''he'')) ! cur) = [(''he'', 0), (''he'', 1)]"
    unfolding t2 by blast
qed

subsection \<open>Termination of the breadth-first loops, with an enumerating transition map\<close>

lemma wf_child_rel: "wf (child_rel n pth)"
proof -
  define D where "D = Suc (Max (set (map (\<lambda>p. length (pth p)) [0..<Suc n])))"
  have b: "\<And>a. a < n \<Longrightarrow> length (pth a) < D"
  proof -
    fix a
    assume "a < n"
    then have "length (pth a) \<in> set (map (\<lambda>p. length (pth p)) [0..<Suc n])"
      by auto
    then have "length (pth a) \<le> Max (set (map (\<lambda>p. length (pth p)) [0..<Suc n]))"
      by (intro Max_ge) auto
    then show "length (pth a) < D"
      by (simp add: D_def)
  qed
  have "child_rel n pth \<subseteq> measure (\<lambda>p. D - length (pth p))"
    using b by (fastforce simp: child_rel_def)
  then show ?thesis
    by (rule wf_subset [OF wf_measure])
qed

lemma wf_queue_rel: "wf (queue_rel n pth)"
  unfolding queue_rel_def by (intro wf_inv_image wf_mult wf_child_rel)

lemma entries_find:
  assumes "trie_inv h pth" "p < length h" "(c, q) \<in> set (d_success (h ! p))"
  shows "find_tm c (d_success (h ! p)) = Some q"
proof -
  have "sorted_wrt (<) (map fst (d_success (h ! p)))"
    using assms(1,2) unfolding trie_inv_def by blast
  then have "distinct (map fst (d_success (h ! p)))"
    by (simp add: strict_sorted_iff)
  with assms(3) show ?thesis
    by (simp add: find_tm_def)
qed

lemma entries_child:
  assumes "trie_inv h pth" "p < length h" "(c, q) \<in> set (d_success (h ! p))"
  shows "q < length h \<and> pth q = pth p @ [c]"
  using entries_find [OF assms] assms(1,2) unfolding trie_inv_def by blast

lemma queue_step:
  assumes "trie_inv h pth" "cur < length h"
  shows "(rest @ map snd (d_success (h ! cur)), cur # rest) \<in> queue_rel (length h) pth"
proof -
  have "\<forall>k\<in>set_mset (mset (map snd (d_success (h ! cur)))).
          \<exists>j\<in>set_mset {#cur#}. (k, j) \<in> child_rel (length h) pth"
    using entries_child [OF assms] assms(2) by (auto simp: child_rel_def)
  then have "(mset rest + mset (map snd (d_success (h ! cur))), mset rest + {#cur#})
      \<in> mult (child_rel (length h) pth)"
    by (intro one_step_implies_mult) simp_all
  then show ?thesis
    by (simp add: queue_rel_def)
qed

lemma same_but_idx_refl: "same_but_idx h h"
  unfolding same_but_idx_def by (metis state.surjective state.update_convs(2))

lemma same_but_idx_trans:
  assumes "same_but_idx h h1" "same_but_idx h1 h2"
  shows "same_but_idx h h2"
  unfolding same_but_idx_def
proof (intro conjI allI impI)
  show "length h2 = length h"
    using assms by (simp add: same_but_idx_def)
  fix p
  assume p: "p < length h"
  from assms(1) p obtain i where i: "h1 ! p = (h ! p)\<lparr>d_idx := i\<rparr>"
    unfolding same_but_idx_def by blast
  from assms p obtain j where j: "h2 ! p = (h1 ! p)\<lparr>d_idx := j\<rparr>"
    unfolding same_but_idx_def by force
  show "\<exists>i. h2 ! p = (h ! p)\<lparr>d_idx := i\<rparr>"
    unfolding j i by auto
qed

lemma same_but_idx_set_index: "same_but_idx h (h[p := set_index i (h ! p)])"
  unfolding same_but_idx_def
proof (intro conjI allI impI)
  fix q
  assume q: "q < length h"
  show "\<exists>j. h[p := set_index i (h ! p)] ! q = (h ! q)\<lparr>d_idx := j\<rparr>"
  proof (cases "q = p")
    case True
    with q show ?thesis by (auto simp: set_index_def)
  next
    case False
    with q have "h[p := set_index i (h ! p)] ! q = (h ! q)\<lparr>d_idx := d_idx (h ! q)\<rparr>"
      by simp
    then show ?thesis by blast
  qed
qed simp

lemma same_but_idx_fields:
  assumes "same_but_idx h h'" "p < length h"
  shows "d_success (h' ! p) = d_success (h ! p)" "d_root (h' ! p) = d_root (h ! p)"
    "d_depth (h' ! p) = d_depth (h ! p)" "d_emits (h' ! p) = d_emits (h ! p)"
    "d_failure (h' ! p) = d_failure (h ! p)"
  using assms unfolding same_but_idx_def by force+

lemma same_but_idx_topology: "same_but_idx h h' \<Longrightarrow> same_topology h h'"
  unfolding same_topology_def using same_but_idx_fields [of h h'] by (simp add: same_but_idx_def)

lemma assign_indices_loop_total:
  assumes "trie_inv h pth" "\<forall>p\<in>set q. p < length h"
  shows "\<exists>h' bfs' i'. assign_indices_loop enumerating_map store h bfs q i = Some (h', bfs', i') \<and>
           same_but_idx h h' \<and> (\<not> store \<longrightarrow> bfs' = bfs)"
proof -
  define n where "n = length h"
  have "\<forall>h bfs i. trie_inv h pth \<and> length h = n \<and> (\<forall>p\<in>set q. p < n) \<longrightarrow>
      (\<exists>h' bfs' i'. assign_indices_loop enumerating_map store h bfs q i = Some (h', bfs', i') \<and>
           same_but_idx h h' \<and> (\<not> store \<longrightarrow> bfs' = bfs))"
  proof (induction q rule: wf_induct_rule [OF wf_queue_rel [of n pth]])
    case (1 q)
    show ?case
    proof (intro allI impI)
      fix h :: "'a state list" and bfs i
      assume a: "trie_inv h pth \<and> length h = n \<and> (\<forall>p\<in>set q. p < n)"
      show "\<exists>h' bfs' i'. assign_indices_loop enumerating_map store h bfs q i = Some (h', bfs', i') \<and>
           same_but_idx h h' \<and> (\<not> store \<longrightarrow> bfs' = bfs)"
      proof (cases q)
        case Nil
        then show ?thesis
          by (subst assign_indices_loop.simps) (simp add: same_but_idx_refl)
      next
        case (Cons cur rest)
        let ?h1 = "h[cur := set_index i (h ! cur)]"
        let ?q1 = "rest @ map snd (d_success (h ! cur))"
        have cur: "cur < length h"
          using a Cons by simp
        have s1: "same_but_idx h ?h1"
          by (rule same_but_idx_set_index)
        have inv1: "trie_inv ?h1 pth"
          using a s1 by (blast intro: same_topology_inv same_but_idx_topology)
        have q1: "\<forall>p\<in>set ?q1. p < n"
          using a Cons entries_child [of h pth cur] cur by auto
        have "(?q1, q) \<in> queue_rel n pth"
          using queue_step [of h pth cur rest] a cur Cons by simp
        from 1 [OF this, rule_format, of ?h1 "if store then bfs @ [cur] else bfs" "i + 1"] inv1 q1 a
        obtain h' bfs' i' where
          r: "assign_indices_loop enumerating_map store ?h1 (if store then bfs @ [cur] else bfs) ?q1 (i + 1) =
                Some (h', bfs', i')" and
          s: "same_but_idx ?h1 h'" and b: "\<not> store \<longrightarrow> bfs' = bfs"
          by auto
        have "assign_indices_loop enumerating_map store h bfs q i = Some (h', bfs', i')"
          using r Cons by (subst assign_indices_loop.simps) simp
        with same_but_idx_trans [OF s1 s] b show ?thesis
          by blast
      qed
    qed
  qed
  with assms n_def show ?thesis
    by blast
qed

subsection \<open>Construction of the failure links, with an enumerating transition map\<close>

lemma next_state_inv:
  assumes "trie_inv h0 pth" "same_topology h0 h" "p < length h0"
  shows "next_state (h ! p) c =
     (case find_tm c (d_success (h0 ! p)) of
        Some r \<Rightarrow> Some r
      | None \<Rightarrow> if p = root then Some root else None)"
proof -
  have "d_success (h ! p) = d_success (h0 ! p)" "d_root (h ! p) = d_root (h0 ! p)"
    using assms(2,3) by (simp_all add: same_topology_def)
  moreover have "d_root (h0 ! p) = (if p = root then Some root else None)"
    using assms(1,3) unfolding trie_inv_def by blast
  ultimately show ?thesis
    by (cases "p = root") (simp_all add: next_state_def next_state_impl_def split: option.splits)
qed

lemma in_trie_prefix: "in_trie h (u @ v) \<Longrightarrow> in_trie h u"
  by (auto simp: in_trie_def walk_append split: option.splits)

lemma in_trie_Nil [simp]: "in_trie h []"
  by (simp add: in_trie_def)

lemma in_trie_pth: "trie_inv h pth \<Longrightarrow> p < length h \<Longrightarrow> in_trie h (pth p)"
  unfolding trie_inv_def in_trie_def by auto

lemma in_trie_snoc:
  assumes "trie_inv h pth" "p < length h"
  shows "in_trie h (pth p @ [c]) \<longleftrightarrow> find_tm c (d_success (h ! p)) \<noteq> None"
proof -
  have "walk h root (pth p) = Some p"
    using assms unfolding trie_inv_def by blast
  then show ?thesis
    by (auto simp: in_trie_def walk_append split: option.splits)
qed

lemma pth_root: "trie_inv h pth \<Longrightarrow> pth root = []" and root_less: "trie_inv h pth \<Longrightarrow> root < length h"
  by (simp_all add: trie_inv_def root_def)

lemma pth_Nil_root:
  assumes "trie_inv h pth" "p < length h" "pth p = []"
  shows "p = root"
  using pth_inj [OF assms(1,2) root_less [OF assms(1)]] assms(3) pth_root [OF assms(1)] by simp

lemma is_lps_snoc_child:
  assumes st: "strict_suffix v w" and it: "in_trie h (v @ [c])"
    and mx: "\<forall>u. strict_suffix u w \<and> in_trie h (u @ [c]) \<longrightarrow> length u \<le> length v"
  shows "is_lps h (v @ [c]) (w @ [c])"
  unfolding is_lps_def
proof (intro conjI allI impI)
  show "strict_suffix (v @ [c]) (w @ [c])"
    using st by (simp add: strict_suffix_def)
  show "in_trie h (v @ [c])"
    by (rule it)
  fix u
  assume u: "strict_suffix u (w @ [c]) \<and> in_trie h u"
  show "length u \<le> length (v @ [c])"
  proof (cases u rule: rev_cases)
    case Nil
    then show ?thesis by simp
  next
    case (snoc u' c')
    with u have "c' = c" "suffix u' w" "u' \<noteq> w"
      by (auto simp: strict_suffix_def)
    with u snoc mx have "length u' \<le> length v"
      by (simp add: strict_suffix_def)
    with snoc show ?thesis by simp
  qed
qed

lemma is_lps_snoc_root:
  assumes mx: "\<forall>u. strict_suffix u w \<and> in_trie h (u @ [c]) \<longrightarrow> u = []"
    and nc: "\<not> in_trie h [c]"
  shows "is_lps h [] (w @ [c])"
  unfolding is_lps_def
proof (intro conjI allI impI)
  show "strict_suffix [] (w @ [c])"
    by (simp add: strict_suffix_def)
  show "in_trie h []"
    by simp
  fix u
  assume u: "strict_suffix u (w @ [c]) \<and> in_trie h u"
  show "length u \<le> length []"
  proof (cases u rule: rev_cases)
    case Nil
    then show ?thesis by simp
  next
    case (snoc u' c')
    with u have "c' = c" "suffix u' w" "u' \<noteq> w"
      by (auto simp: strict_suffix_def)
    with u snoc mx have "u' = []"
      by (simp add: strict_suffix_def)
    with u snoc \<open>c' = c\<close> nc show ?thesis by simp
  qed
qed

lemma trace_failure_chain:
  assumes inv: "trie_inv h0 pth" and top: "same_topology h0 h" and rd: "ready h0 pth h l"
  shows "tr < length h0 \<Longrightarrow> length (pth tr) \<le> l \<Longrightarrow> strict_suffix (pth tr) w \<Longrightarrow>
     (\<forall>u. strict_suffix u w \<and> in_trie h0 (u @ [c]) \<longrightarrow> length u \<le> length (pth tr)) \<Longrightarrow>
     \<exists>tr' nf. trace_failure h (Some tr) c = Some tr' \<and> tr' < length h0 \<and>
        next_state (h ! tr') c = Some nf \<and> nf < length h0 \<and> is_lps h0 (pth nf) (w @ [c])"
proof (induction "length (pth tr)" arbitrary: tr rule: less_induct)
  case less
  note ns = next_state_inv [OF inv top less.prems(1), of c]
  show ?case
  proof (cases "find_tm c (d_success (h0 ! tr))")
    case (Some r)
    with ns have n: "next_state (h ! tr) c = Some r"
      by simp
    then have t: "trace_failure h (Some tr) c = Some tr"
      by (subst trace_failure.simps) simp
    from Some inv less.prems(1) have r: "r < length h0" "pth r = pth tr @ [c]"
      unfolding trie_inv_def by blast+
    have "in_trie h0 (pth tr @ [c])"
      using in_trie_pth [OF inv r(1)] r(2) by simp
    with less.prems(3,4) have "is_lps h0 (pth tr @ [c]) (w @ [c])"
      by (intro is_lps_snoc_child)
    with t n r less.prems(1) show ?thesis
      by auto
  next
    case None
    show ?thesis
    proof (cases "tr = root")
      case True
      with None ns have n: "next_state (h ! tr) c = Some root"
        by simp
      then have t: "trace_failure h (Some tr) c = Some tr"
        by (subst trace_failure.simps) simp
      have p0: "pth tr = []"
        using True pth_root [OF inv] by simp
      have "\<not> in_trie h0 [c]"
        using in_trie_snoc [OF inv less.prems(1), of c] None p0 by simp
      moreover have "\<forall>u. strict_suffix u w \<and> in_trie h0 (u @ [c]) \<longrightarrow> u = []"
        using less.prems(4) p0 by simp
      ultimately have "is_lps h0 [] (w @ [c])"
        by (intro is_lps_snoc_root)
      with t n True less.prems(1) pth_root [OF inv] show ?thesis
        by auto
    next
      case False
      with None ns have n: "next_state (h ! tr) c = None"
        by simp
      from rd False less.prems(1,2) obtain f where
        f: "d_failure (h ! tr) = Some f" "f < length h0" "is_lps h0 (pth f) (pth tr)"
        unfolding ready_def fail_ok_def by blast
      have t: "trace_failure h (Some tr) c = trace_failure h (Some f) c"
        using n f(1) by (subst trace_failure.simps) simp
      have sf: "strict_suffix (pth f) (pth tr)"
        using f(3) by (simp add: is_lps_def)
      then have lf: "length (pth f) < length (pth tr)"
        by (rule suffix_length_less)
      have s2: "strict_suffix (pth f) w"
        using sf less.prems(3) by (rule suffix_order.strict_trans)
      have nc: "\<not> in_trie h0 (pth tr @ [c])"
        using in_trie_snoc [OF inv less.prems(1), of c] None by simp
      have mx: "\<forall>u. strict_suffix u w \<and> in_trie h0 (u @ [c]) \<longrightarrow> length u \<le> length (pth f)"
      proof (intro allI impI)
        fix u
        assume u: "strict_suffix u w \<and> in_trie h0 (u @ [c])"
        with less.prems(4) have lu: "length u \<le> length (pth tr)"
          by blast
        from u nc have ne: "u \<noteq> pth tr"
          by auto
        have "suffix u (pth tr)"
          using u less.prems(3) lu by (auto simp: strict_suffix_def intro: suffix_length_suffix)
        with ne have "strict_suffix u (pth tr)"
          by (simp add: strict_suffix_def)
        moreover have "in_trie h0 u"
          using u in_trie_prefix by blast
        ultimately show "length u \<le> length (pth f)"
          using f(3) by (simp add: is_lps_def)
      qed
      from less.hyps [OF lf f(2) _ s2 mx] lf less.prems(2) t show ?thesis
        by simp
    qed
  qed
qed

lemma add_emits_eq: "add_emits es s = s\<lparr>d_emits := d_emits s @ es\<rparr>"
  by (induction es arbitrary: s) (simp_all add: add_emits_def add_emit_def)

lemma new_failure_allow:
  "trace_failure h tr c = Some tr' \<Longrightarrow> next_state (h ! tr') c = Some nf \<Longrightarrow>
     new_failure True h tr c = Some (h, nf)"
  by (subst new_failure.simps) simp

lemma failure_transition_step:
  assumes inv: "trie_inv h0 pth" and top: "same_topology h0 h"
    and rd: "ready h0 pth h (length (pth cur))"
    and cur: "cur < length h0" "cur \<noteq> root"
    and edge: "find_tm c (d_success (h0 ! cur)) = Some tgt"
    and eo: "emits_ok E pth h"
  shows "\<exists>h'. failure_transition True cur c (h, qq) = Some (h', qq @ [tgt]) \<and>
           same_topology h0 h' \<and> fail_ok h0 pth h' tgt \<and>
           (\<forall>p<length h0. p \<noteq> tgt \<longrightarrow> h' ! p = h ! p) \<and> emits_ok E pth h'"
proof -
  have len: "length h = length h0"
    using top by (simp add: same_topology_def)
  have tgt: "tgt < length h0" "pth tgt = pth cur @ [c]"
    using inv cur(1) edge unfolding trie_inv_def by blast+
  have n: "next_state (h ! cur) c = Some tgt"
    using next_state_inv [OF inv top cur(1), of c] edge by simp
  from rd cur obtain f0 where
    f0: "d_failure (h ! cur) = Some f0" "f0 < length h0" "is_lps h0 (pth f0) (pth cur)"
    unfolding ready_def fail_ok_def by blast
  have s0: "strict_suffix (pth f0) (pth cur)"
    using f0(3) by (simp add: is_lps_def)
  have l0: "length (pth f0) \<le> length (pth cur)"
    using suffix_length_less [OF s0] by simp
  have mx: "\<forall>u. strict_suffix u (pth cur) \<and> in_trie h0 (u @ [c]) \<longrightarrow> length u \<le> length (pth f0)"
    using f0(3) in_trie_prefix unfolding is_lps_def by blast
  from trace_failure_chain [OF inv top rd f0(2) l0 s0 mx] obtain tr' nf where
    t: "trace_failure h (Some f0) c = Some tr'" and nn: "next_state (h ! tr') c = Some nf" and
    nf: "nf < length h0" "is_lps h0 (pth nf) (pth cur @ [c])"
    by blast
  have nfail: "new_failure True h (d_failure (h ! cur)) c = Some (h, nf)"
    unfolding f0(1) using t nn by (rule new_failure_allow)
  have sn: "strict_suffix (pth nf) (pth tgt)"
    using nf(2) tgt(2) by (simp add: is_lps_def)
  then have ne: "nf \<noteq> tgt"
    by (auto simp: strict_suffix_def)
  define s' where "s' = (h ! tgt)\<lparr>d_failure := Some nf, d_emits := d_emits (h ! tgt) @ d_emits (h ! nf)\<rparr>"
  let ?h2 = "h[tgt := set_failure (Some nf) (h ! tgt)]"
  let ?h3 = "?h2[tgt := add_emits (d_emits (?h2 ! nf)) (?h2 ! tgt)]"
  have h3: "?h3 = h[tgt := s']"
    using tgt(1) len ne by (simp add: s'_def add_emits_eq set_failure_def)
  have ft: "failure_transition True cur c (h, qq) = Some (h[tgt := s'], qq @ [tgt])"
    unfolding failure_transition_def using n nfail h3 by (simp add: Let_def)
  have t1: "same_topology h (h[tgt := s'])"
    by (rule same_topology_update) (simp_all add: s'_def)
  have t2: "same_topology h0 (h[tgt := s'])"
    using top t1 by (rule same_topology_trans)
  have fo: "fail_ok h0 pth (h[tgt := s']) tgt"
    unfolding fail_ok_def using tgt len nf by (simp add: s'_def)
  have fr: "\<forall>p<length h0. p \<noteq> tgt \<longrightarrow> h[tgt := s'] ! p = h ! p"
    by simp
  have eo': "emits_ok E pth (h[tgt := s'])"
    unfolding emits_ok_def
  proof (intro allI impI ballI)
    fix p e
    assume p: "p < length (h[tgt := s'])" and e: "e \<in> set (d_emits (h[tgt := s'] ! p))"
    show "fst e \<noteq> [] \<and> suffix (fst e) (pth p) \<and> e \<in> E"
    proof (cases "p = tgt")
      case False
      with p e eo show ?thesis
        unfolding emits_ok_def by force
    next
      case True
      with e p have "e \<in> set (d_emits (h ! tgt)) \<or> e \<in> set (d_emits (h ! nf))"
        by (auto simp: s'_def)
      then show ?thesis
      proof
        assume "e \<in> set (d_emits (h ! tgt))"
        with eo tgt(1) len True show ?thesis
          unfolding emits_ok_def by force
      next
        assume "e \<in> set (d_emits (h ! nf))"
        with eo nf(1) len have "fst e \<noteq> [] \<and> suffix (fst e) (pth nf) \<and> e \<in> E"
          unfolding emits_ok_def by force
        moreover have "suffix (pth nf) (pth tgt)"
          using sn by (simp add: strict_suffix_def)
        ultimately show ?thesis
          using True by (auto intro: suffix_order.trans)
      qed
    qed
  qed
  from ft t2 fo fr eo' show ?thesis
    by blast
qed

lemma fail_ok_frame:
  "fail_ok h0 pth h p \<Longrightarrow> h' ! p = h ! p \<Longrightarrow> fail_ok h0 pth h' p"
  by (simp add: fail_ok_def)

lemma failure_transitions_total:
  assumes inv: "trie_inv h0 pth" and cur: "cur < length h0" "cur \<noteq> root"
  shows "same_topology h0 h \<Longrightarrow> ready h0 pth h (length (pth cur)) \<Longrightarrow> emits_ok E pth h \<Longrightarrow>
     \<forall>(c, tgt)\<in>set es. find_tm c (d_success (h0 ! cur)) = Some tgt \<Longrightarrow>
     \<exists>h'. failure_transitions True cur (map fst es) (h, qq) = Some (h', qq @ map snd es) \<and>
        same_topology h0 h' \<and> emits_ok E pth h' \<and>
        (\<forall>p<length h0. fail_ok h0 pth h p \<longrightarrow> fail_ok h0 pth h' p) \<and>
        (\<forall>tgt\<in>snd ` set es. fail_ok h0 pth h' tgt)"
proof (induction es arbitrary: h qq)
  case Nil
  then show ?case by simp
next
  case (Cons e es)
  obtain c tgt where e: "e = (c, tgt)"
    by (cases e)
  with Cons.prems(4) have edge: "find_tm c (d_success (h0 ! cur)) = Some tgt"
    by simp
  from failure_transition_step [OF inv Cons.prems(1,2) cur edge Cons.prems(3), of qq]
  obtain h1 where
    ft: "failure_transition True cur c (h, qq) = Some (h1, qq @ [tgt])" and
    top1: "same_topology h0 h1" and fo1: "fail_ok h0 pth h1 tgt" and
    fr1: "\<forall>p<length h0. p \<noteq> tgt \<longrightarrow> h1 ! p = h ! p" and eo1: "emits_ok E pth h1"
    by blast
  have keep: "\<forall>p<length h0. fail_ok h0 pth h p \<longrightarrow> fail_ok h0 pth h1 p"
  proof (intro allI impI)
    fix p
    assume "p < length h0" "fail_ok h0 pth h p"
    with fr1 fo1 show "fail_ok h0 pth h1 p"
      by (cases "p = tgt") (auto intro: fail_ok_frame)
  qed
  have rd1: "ready h0 pth h1 (length (pth cur))"
    using Cons.prems(2) keep unfolding ready_def by blast
  have es: "\<forall>(c, tgt)\<in>set es. find_tm c (d_success (h0 ! cur)) = Some tgt"
    using Cons.prems(4) by simp
  from Cons.IH [OF top1 rd1 eo1 es, of "qq @ [tgt]"] obtain h' where
    r: "failure_transitions True cur (map fst es) (h1, qq @ [tgt]) =
          Some (h', (qq @ [tgt]) @ map snd es)" and
    top': "same_topology h0 h'" and eo': "emits_ok E pth h'" and
    keep': "\<forall>p<length h0. fail_ok h0 pth h1 p \<longrightarrow> fail_ok h0 pth h' p" and
    fo': "\<forall>tgt\<in>snd ` set es. fail_ok h0 pth h' tgt"
    by blast
  have "failure_transitions True cur (map fst (e # es)) (h, qq) = Some (h', qq @ map snd (e # es))"
    using ft r e by simp
  moreover have "\<forall>p<length h0. fail_ok h0 pth h p \<longrightarrow> fail_ok h0 pth h' p"
    using keep keep' by blast
  moreover have "tgt < length h0"
    using inv cur(1) edge unfolding trie_inv_def by blast
  then have "\<forall>t\<in>snd ` set (e # es). fail_ok h0 pth h' t"
    using fo' fo1 keep' e by auto
  ultimately show ?case
    using top' eo' by blast
qed

lemma bfs_inv_ready:
  assumes "bfs_inv h0 pth E h (cur # rest)"
  shows "ready h0 pth h (length (pth cur))"
  unfolding ready_def
proof (intro allI impI)
  fix p
  assume p: "p < length h0" "p \<noteq> root \<and> length (pth p) \<le> length (pth cur)"
  show "fail_ok h0 pth h p"
  proof (rule ccontr)
    assume "\<not> fail_ok h0 pth h p"
    with assms p obtain a where a: "a \<in> set (cur # rest)" "strict_prefix (pth a) (pth p)"
      unfolding bfs_inv_def by blast
    from a(2) have "length (pth a) < length (pth p)"
      by (rule prefix_length_less)
    moreover have "length (pth cur) \<le> length (pth a)"
      using assms a(1) unfolding bfs_inv_def by auto
    ultimately show False
      using p(2) by simp
  qed
qed

lemma child_of_prefix:
  assumes inv: "trie_inv h pth" and a: "a < length h" and p: "p < length h"
    and sp: "strict_prefix (pth a) (pth p)"
  shows "\<exists>c ch. (c, ch) \<in> set (d_success (h ! a)) \<and> prefix (pth ch) (pth p) \<and> ch < length h"
proof -
  from sp obtain c v where v: "pth p = pth a @ c # v"
    by (auto simp: strict_prefix_def prefix_def neq_Nil_conv)
  have "walk h root (pth p) = Some p" "walk h root (pth a) = Some a"
    using inv a p unfolding trie_inv_def by blast+
  then have "walk h a (c # v) = Some p"
    using v by (simp add: walk_append)
  then obtain ch where ch: "find_tm c (d_success (h ! a)) = Some ch"
    by (auto split: option.splits)
  then have m: "(c, ch) \<in> set (d_success (h ! a))"
    unfolding find_tm_def by (rule map_of_SomeD)
  from ch inv a have cl: "ch < length h" and pc: "pth ch = pth a @ [c]"
    unfolding trie_inv_def by blast+
  have "pth p = pth ch @ v"
    using v pc by simp
  then have "prefix (pth ch) (pth p)"
    by (simp add: prefix_def)
  with m cl show ?thesis
    by blast
qed

lemma bfs_inv_step:
  assumes inv: "trie_inv h0 pth" and bi: "bfs_inv h0 pth E h (cur # rest)"
    and top': "same_topology h0 h'" and eo': "emits_ok E pth h'"
    and keep: "\<forall>p<length h0. fail_ok h0 pth h p \<longrightarrow> fail_ok h0 pth h' p"
    and fo': "\<forall>tgt\<in>snd ` set (d_success (h0 ! cur)). fail_ok h0 pth h' tgt"
  shows "bfs_inv h0 pth E h' (rest @ map snd (d_success (h0 ! cur)))"
proof -
  let ?ch = "map snd (d_success (h0 ! cur))"
  have cur: "cur < length h0"
    using bi by (simp add: bfs_inv_def)
  have ch: "\<And>x. x \<in> set ?ch \<Longrightarrow> x < length h0 \<and> length (pth x) = Suc (length (pth cur)) \<and>
      fail_ok h0 pth h' x"
    using entries_child [OF inv cur] fo' by fastforce
  have rest: "\<And>x. x \<in> set rest \<Longrightarrow> x < length h0 \<and> x \<noteq> root \<and> fail_ok h0 pth h' x \<and>
      length (pth cur) \<le> length (pth x) \<and> length (pth x) \<le> Suc (length (pth cur))"
    using bi keep unfolding bfs_inv_def by auto
  have a: "\<forall>p\<in>set (rest @ ?ch). p < length h0 \<and> p \<noteq> root \<and> fail_ok h0 pth h' p"
  proof
    fix p
    assume "p \<in> set (rest @ ?ch)"
    then consider "p \<in> set rest" | "p \<in> set ?ch"
      by auto
    then show "p < length h0 \<and> p \<noteq> root \<and> fail_ok h0 pth h' p"
    proof cases
      case 1
      with rest show ?thesis by blast
    next
      case 2
      with ch [of p] pth_root [OF inv] show ?thesis by auto
    qed
  qed
  have b: "\<forall>p<length h0. p \<noteq> root \<longrightarrow>
      fail_ok h0 pth h' p \<or> (\<exists>a\<in>set (rest @ ?ch). strict_prefix (pth a) (pth p))"
  proof (intro allI impI)
    fix p
    assume p: "p < length h0" "p \<noteq> root"
    show "fail_ok h0 pth h' p \<or> (\<exists>a\<in>set (rest @ ?ch). strict_prefix (pth a) (pth p))"
    proof (cases "fail_ok h0 pth h p")
      case True
      with keep p show ?thesis by blast
    next
      case False
      with bi p obtain a where a: "a \<in> set (cur # rest)" "strict_prefix (pth a) (pth p)"
        unfolding bfs_inv_def by blast
      show ?thesis
      proof (cases "a = cur")
        case ac: False
        with a show ?thesis by auto
      next
        case ac: True
        from child_of_prefix [OF inv cur p(1)] a(2) ac obtain c x where
          x: "(c, x) \<in> set (d_success (h0 ! cur))" "prefix (pth x) (pth p)" "x < length h0"
          by blast
        then have xs: "x \<in> set ?ch"
          by force
        show ?thesis
        proof (cases "pth x = pth p")
          case True
          then have "x = p"
            using pth_inj [OF inv x(3) p(1)] by simp
          with ch [OF xs] show ?thesis by simp
        next
          case False
          with x(2) have "strict_prefix (pth x) (pth p)"
            by (simp add: strict_prefix_def)
          with xs show ?thesis by auto
        qed
      qed
    qed
  qed
  have c: "sorted_wrt (\<lambda>a b. length (pth a) \<le> length (pth b)) (rest @ ?ch)"
  proof -
    have "sorted_wrt (\<lambda>a b. length (pth a) \<le> length (pth b)) rest"
      using bi by (simp add: bfs_inv_def)
    moreover have "sorted_wrt (\<lambda>a b. length (pth a) \<le> length (pth b)) ?ch"
      using ch by (auto simp: sorted_wrt_iff_nth_less)
    moreover have "\<forall>x\<in>set rest. \<forall>y\<in>set ?ch. length (pth x) \<le> length (pth y)"
      using rest ch by auto
    ultimately show ?thesis
      by (simp add: sorted_wrt_append)
  qed
  have d: "\<forall>p\<in>set (rest @ ?ch). length (pth p) \<le> Suc (length (pth (hd (rest @ ?ch))))"
  proof
    fix p
    assume p: "p \<in> set (rest @ ?ch)"
    then have "rest @ ?ch \<noteq> []"
      by auto
    then have "hd (rest @ ?ch) \<in> set (rest @ ?ch)"
      by (rule hd_in_set)
    then have "length (pth cur) \<le> length (pth (hd (rest @ ?ch)))"
      using rest ch by fastforce
    moreover have "length (pth p) \<le> Suc (length (pth cur))"
      using p rest ch by fastforce
    ultimately show "length (pth p) \<le> Suc (length (pth (hd (rest @ ?ch))))"
      by simp
  qed
  from top' a b c d eo' show ?thesis
    unfolding bfs_inv_def by blast
qed

lemma failure_loop_total:
  assumes inv: "trie_inv h0 pth" and bi: "bfs_inv h0 pth E h q"
  shows "\<exists>h'. failure_loop enumerating_map True h q = Some h' \<and> same_topology h0 h' \<and> emits_ok E pth h' \<and>
           (\<forall>p<length h0. p \<noteq> root \<longrightarrow> fail_ok h0 pth h' p)"
proof -
  have "\<forall>h. bfs_inv h0 pth E h q \<longrightarrow>
      (\<exists>h'. failure_loop enumerating_map True h q = Some h' \<and> same_topology h0 h' \<and> emits_ok E pth h' \<and>
           (\<forall>p<length h0. p \<noteq> root \<longrightarrow> fail_ok h0 pth h' p))"
  proof (induction q rule: wf_induct_rule [OF wf_queue_rel [of "length h0" pth]])
    case (1 q)
    show ?case
    proof (intro allI impI)
      fix h
      assume b: "bfs_inv h0 pth E h q"
      show "\<exists>h'. failure_loop enumerating_map True h q = Some h' \<and> same_topology h0 h' \<and> emits_ok E pth h' \<and>
           (\<forall>p<length h0. p \<noteq> root \<longrightarrow> fail_ok h0 pth h' p)"
      proof (cases q)
        case Nil
        then have "failure_loop enumerating_map True h q = Some h"
          by (subst failure_loop.simps) simp
        moreover have "\<forall>p<length h0. p \<noteq> root \<longrightarrow> fail_ok h0 pth h p"
          using b Nil unfolding bfs_inv_def by auto
        ultimately show ?thesis
          using b unfolding bfs_inv_def by blast
      next
        case (Cons cur rest)
        have cur: "cur < length h0" "cur \<noteq> root"
          using b Cons by (simp_all add: bfs_inv_def)
        have top: "same_topology h0 h" and eo: "emits_ok E pth h"
          using b by (simp_all add: bfs_inv_def)
        have rd: "ready h0 pth h (length (pth cur))"
          using b Cons bfs_inv_ready by blast
        have sc: "d_success (h ! cur) = d_success (h0 ! cur)"
          using top cur(1) by (simp add: same_topology_def)
        have es: "\<forall>(c, tgt)\<in>set (d_success (h0 ! cur)). find_tm c (d_success (h0 ! cur)) = Some tgt"
          using entries_find [OF inv cur(1)] by blast
        from failure_transitions_total [OF inv cur top rd eo es, of q] obtain h1 where
          ft: "failure_transitions True cur (map fst (d_success (h0 ! cur))) (h, q) =
                 Some (h1, q @ map snd (d_success (h0 ! cur)))" and
          top1: "same_topology h0 h1" and eo1: "emits_ok E pth h1" and
          keep: "\<forall>p<length h0. fail_ok h0 pth h p \<longrightarrow> fail_ok h0 pth h1 p" and
          fo1: "\<forall>tgt\<in>snd ` set (d_success (h0 ! cur)). fail_ok h0 pth h1 tgt"
          by blast
        let ?q1 = "rest @ map snd (d_success (h0 ! cur))"
        have b1: "bfs_inv h0 pth E h1 ?q1"
          using inv b top1 eo1 keep fo1 unfolding Cons by (rule bfs_inv_step)
        have "(?q1, q) \<in> queue_rel (length h0) pth"
          using queue_step [OF inv cur(1), of rest] Cons by simp
        from 1 [OF this, rule_format, OF b1] obtain h' where
          r: "failure_loop enumerating_map True h1 ?q1 = Some h'" and
          post: "same_topology h0 h'" "emits_ok E pth h'"
            "\<forall>p<length h0. p \<noteq> root \<longrightarrow> fail_ok h0 pth h' p"
          by blast
        have "failure_loop enumerating_map True h q = Some h'"
          using ft r Cons sc by (subst failure_loop.simps) simp
        with post show ?thesis
          by blast
      qed
    qed
  qed
  with bi show ?thesis
    by blast
qed

lemma depth_one_fold:
  "length (fold (\<lambda>s h. h[s := set_failure (Some r) (h ! s)]) xs h) = length h \<and>
   (\<forall>p<length h. fold (\<lambda>s h. h[s := set_failure (Some r) (h ! s)]) xs h ! p =
      (if p \<in> set xs then (h ! p)\<lparr>d_failure := Some r\<rparr> else h ! p))"
proof (induction xs arbitrary: h)
  case Nil
  then show ?case by simp
next
  case (Cons x xs)
  let ?h1 = "h[x := set_failure (Some r) (h ! x)]"
  have l: "length ?h1 = length h"
    by simp
  have "\<forall>p<length h. (if p \<in> set xs then (?h1 ! p)\<lparr>d_failure := Some r\<rparr> else ?h1 ! p) =
      (if p \<in> set (x # xs) then (h ! p)\<lparr>d_failure := Some r\<rparr> else h ! p)"
  proof (intro allI impI)
    fix p
    assume "p < length h"
    then show "(if p \<in> set xs then (?h1 ! p)\<lparr>d_failure := Some r\<rparr> else ?h1 ! p) =
      (if p \<in> set (x # xs) then (h ! p)\<lparr>d_failure := Some r\<rparr> else h ! p)"
      by (cases "p = x") (simp_all add: set_failure_def)
  qed
  with Cons.IH [of ?h1] show ?case
    by (simp del: list_update_overwrite)
qed

lemma is_lps_single: "is_lps h [] [c]"
  by (auto simp: is_lps_def strict_suffix_def suffix_def Cons_eq_append_conv)

lemma emits_inv_ok:
  assumes "emits_inv h pth"
  shows "emits_ok (set (all_emits h)) pth h"
  unfolding emits_ok_def
proof (intro allI impI ballI)
  fix p e
  assume p: "p < length h" and e: "e \<in> set (d_emits (h ! p))"
  then have "e \<in> set (all_emits h)"
    unfolding all_emits_mem by blast
  moreover have "fst e = pth p \<and> pth p \<noteq> []"
    using assms p e unfolding emits_inv_def by blast
  ultimately show "fst e \<noteq> [] \<and> suffix (fst e) (pth p) \<and> e \<in> set (all_emits h)"
    by auto
qed

lemma construct_failure_states_total:
  assumes inv: "trie_inv (states t) pth" and ei: "emits_inv (states t) pth"
    and allow: "d_allow_substrings (d_config t)"
  shows "\<exists>h'. construct_failure_states enumerating_map t = Some (t\<lparr>states := h'\<rparr>) \<and>
           same_topology (states t) h' \<and> emits_ok (set (all_emits (states t))) pth h' \<and>
           (\<forall>p<length (states t). p \<noteq> root \<longrightarrow> fail_ok (states t) pth h' p)"
proof -
  let ?h0 = "states t"
  let ?d1 = "map snd (d_success (?h0 ! root))"
  let ?h1 = "fold (\<lambda>s h. h[s := set_failure (Some root) (h ! s)]) ?d1 ?h0"
  let ?E = "set (all_emits ?h0)"
  note r0 = root_less [OF inv] and p0 = pth_root [OF inv]
  have l1: "length ?h1 = length ?h0" and
    n1: "\<And>p. p < length ?h0 \<Longrightarrow> ?h1 ! p =
      (if p \<in> set ?d1 then (?h0 ! p)\<lparr>d_failure := Some root\<rparr> else ?h0 ! p)"
    using depth_one_fold [of root ?d1 ?h0] by simp_all
  have top: "same_topology ?h0 ?h1"
    unfolding same_topology_def using l1 n1 by simp
  have d1: "\<And>x. x \<in> set ?d1 \<Longrightarrow> x < length ?h0 \<and> (\<exists>c. pth x = [c])"
    using entries_child [OF inv r0] p0 by fastforce
  have fo: "\<And>x. x \<in> set ?d1 \<Longrightarrow> fail_ok ?h0 pth ?h1 x"
  proof -
    fix x
    assume x: "x \<in> set ?d1"
    with d1 obtain c where "x < length ?h0" "pth x = [c]"
      by blast
    with x n1 r0 p0 show "fail_ok ?h0 pth ?h1 x"
      by (simp add: fail_ok_def is_lps_single)
  qed
  have eo: "emits_ok ?E pth ?h1"
    using emits_inv_ok [OF ei] l1 n1 unfolding emits_ok_def by simp
  have cov: "\<forall>p<length ?h0. p \<noteq> root \<longrightarrow>
      fail_ok ?h0 pth ?h1 p \<or> (\<exists>a\<in>set ?d1. strict_prefix (pth a) (pth p))"
  proof (intro allI impI)
    fix p
    assume p: "p < length ?h0" "p \<noteq> root"
    then have "pth p \<noteq> []"
      using pth_Nil_root [OF inv] by blast
    then have "strict_prefix (pth root) (pth p)"
      using p0 by (simp add: strict_prefix_def)
    from child_of_prefix [OF inv r0 p(1) this] obtain c x where
      x: "(c, x) \<in> set (d_success (?h0 ! root))" "prefix (pth x) (pth p)" "x < length ?h0"
      by blast
    then have xs: "x \<in> set ?d1"
      by force
    show "fail_ok ?h0 pth ?h1 p \<or> (\<exists>a\<in>set ?d1. strict_prefix (pth a) (pth p))"
    proof (cases "pth x = pth p")
      case True
      then have "x = p"
        using pth_inj [OF inv x(3) p(1)] by simp
      with fo [OF xs] show ?thesis by simp
    next
      case False
      with x(2) have "strict_prefix (pth x) (pth p)"
        by (simp add: strict_prefix_def)
      with xs show ?thesis by auto
    qed
  qed
  have d1l: "\<And>x. x \<in> set ?d1 \<Longrightarrow> length (pth x) = 1"
    using d1 by fastforce
  have srt: "sorted_wrt (\<lambda>a b. length (pth a) \<le> length (pth b)) ?d1"
    using d1l by (auto simp: sorted_wrt_iff_nth_less)
  have bnd: "\<forall>p\<in>set ?d1. length (pth p) \<le> Suc (length (pth (hd ?d1)))"
    using d1l by simp
  have qr: "\<forall>p\<in>set ?d1. p < length ?h0 \<and> p \<noteq> root \<and> fail_ok ?h0 pth ?h1 p"
    using d1 fo p0 by fastforce
  have "bfs_inv ?h0 pth ?E ?h1 ?d1"
    unfolding bfs_inv_def using top qr cov srt bnd eo by blast
  from failure_loop_total [OF inv this] obtain h' where
    "failure_loop enumerating_map True ?h1 ?d1 = Some h'" "same_topology ?h0 h'" "emits_ok ?E pth h'"
    "\<forall>p<length ?h0. p \<noteq> root \<longrightarrow> fail_ok ?h0 pth h' p"
    by blast
  then show ?thesis
    using allow by (auto simp: construct_failure_states_def Let_def)
qed

lemma inserts_not_postprocessed [simp]:
  "d_postprocessed (inserts t kws) = d_postprocessed t"
proof (induction kws arbitrary: t)
  case Nil
  then show ?case by (simp add: inserts_def)
next
  case (Cons kw kws)
  have "d_postprocessed (fst (insert_trie t kw)) = d_postprocessed t"
    by (auto simp: insert_trie_def split: prod.splits)
  with Cons show ?case
    by (simp add: inserts_Cons)
qed

lemma same_but_idx_all_emits:
  assumes "same_but_idx h h'"
  shows "all_emits h' = all_emits h"
proof -
  have "map d_emits h' = map d_emits h"
    using assms same_but_idx_fields(4) [OF assms]
    by (intro nth_equalityI) (simp_all add: same_but_idx_def)
  then show ?thesis
    by (simp add: all_emits_def)
qed

lemma same_but_idx_emits_inv:
  assumes "same_but_idx h h'" "emits_inv h pth"
  shows "emits_inv h' pth"
  using assms(2) same_but_idx_fields(4) [OF assms(1)] assms(1)
  unfolding emits_inv_def same_but_idx_def by simp

lemma fail_ok_topology:
  assumes "trie_inv h0 pth" "same_topology h0 h1" "fail_ok h1 pth h p"
  shows "fail_ok h0 pth h p"
proof -
  have "\<And>w. walk h1 root w = walk h0 root w"
    using same_topology_walk [OF assms(1,2) root_less [OF assms(1)]] .
  then have "\<And>v w. is_lps h1 v w = is_lps h0 v w"
    by (simp add: is_lps_def in_trie_def)
  moreover have "length h1 = length h0"
    using assms(2) by (simp add: same_topology_def)
  ultimately show ?thesis
    using assms(3) by (simp add: fail_ok_def)
qed

lemma check_postprocess_total:
  assumes pre: "pre_inv t pth" and allow: "d_allow_substrings (d_config t)"
    and np: "\<not> d_postprocessed t"
  shows "\<exists>t'. check_postprocess enumerating_map t = Some t' \<and> d_config t' = d_config t \<and>
           compiled (states t) pth (set (all_emits (states t))) (states t')"
proof -
  have inv: "trie_inv (states t) pth" and ei: "emits_inv (states t) pth"
    using pre by (simp_all add: pre_inv_def)
  have "\<forall>p\<in>set [root]. p < length (states t)"
    using root_less [OF inv] by simp
  from assign_indices_loop_total [OF inv this,
      of "d_store_states_in_bfs_order (d_config t)" "d_states_in_bfs_order t" 0]
  obtain h1 bfs1 i1 where
    a: "assign_indices_loop enumerating_map (d_store_states_in_bfs_order (d_config t)) (states t)
          (d_states_in_bfs_order t) [root] 0 = Some (h1, bfs1, i1)" and
    s: "same_but_idx (states t) h1"
    by blast
  define t1 where "t1 = t\<lparr>states := h1, d_states_in_bfs_order := bfs1, d_state_count := i1\<rparr>"
  have a1: "assign_indices enumerating_map t = Some t1"
    using a by (simp add: assign_indices_def t1_def)
  have top1: "same_topology (states t) h1"
    using s by (rule same_but_idx_topology)
  have inv1: "trie_inv (states t1) pth"
    using inv top1 by (simp add: t1_def same_topology_inv)
  have ei1: "emits_inv (states t1) pth"
    using s ei by (simp add: t1_def same_but_idx_emits_inv)
  have ae1: "all_emits (states t1) = all_emits (states t)"
    using s by (simp add: t1_def same_but_idx_all_emits)
  have allow1: "d_allow_substrings (d_config t1)"
    using allow by (simp add: t1_def)
  from construct_failure_states_total [OF inv1 ei1 allow1] obtain h2 where
    c: "construct_failure_states enumerating_map t1 = Some (t1\<lparr>states := h2\<rparr>)" and
    top2: "same_topology (states t1) h2" and
    eo2: "emits_ok (set (all_emits (states t1))) pth h2" and
    fo2: "\<forall>p<length (states t1). p \<noteq> root \<longrightarrow> fail_ok (states t1) pth h2 p"
    by blast
  define t3 where "t3 = t1\<lparr>states := h2\<rparr>"
  define t' where "t' = (if d_store_states_in_bfs_order (d_config t3)
      then t3\<lparr>d_final_states_in_bfs_order := d_final_states_in_bfs_order t3 @
             filter (\<lambda>cur_state. length (d_emits (states t3 ! cur_state)) \<noteq> 0)
               (d_states_in_bfs_order t3)\<rparr>
      else t3)\<lparr>d_postprocessed := True\<rparr>"
  have cp: "check_postprocess enumerating_map t = Some t'"
    using np a1 allow1 c by (simp add: check_postprocess_def t3_def t'_def)
  have st: "states t' = h2" and cf: "d_config t' = d_config t"
    by (simp_all add: t'_def t3_def t1_def)
  have l1: "length (states t1) = length (states t)"
    using top1 by (simp add: t1_def same_topology_def)
  have top: "same_topology (states t) h2"
    using top1 top2 by (simp add: t1_def same_topology_trans)
  have fo: "\<forall>p<length (states t). p \<noteq> root \<longrightarrow> fail_ok (states t) pth h2 p"
    using fo2 l1 fail_ok_topology [OF inv, of "states t1" h2] top1 by (simp add: t1_def)
  have "compiled (states t) pth (set (all_emits (states t))) (states t')"
    unfolding compiled_def st using inv top eo2 fo ae1 by simp
  with cp cf show ?thesis
    by blast
qed

lemma built_compiles:
  assumes "t = inserts (new_trie cfg) keywords" "d_allow_substrings cfg"
  shows "\<exists>t' pth. check_postprocess enumerating_map t = Some t' \<and> d_config t' = cfg \<and> pre_inv t pth \<and>
           compiled (states t) pth (set (all_emits (states t))) (states t')"
proof -
  from built_pre_inv [where cfg = cfg and kws = "keywords"] assms(1) obtain pth where pre: "pre_inv t pth"
    by blast
  have c: "d_config t = cfg" and np: "\<not> d_postprocessed t"
    using assms(1) by (simp_all add: new_trie_def)
  from check_postprocess_total [OF pre _ np] assms(2) c pre show ?thesis
    by auto
qed

subsection \<open>Failure links with an enumerating transition map\<close>

text \<open>
  With \<open>enumerating_map\<close> for \<open>TransitionMap\<close>, compilation of an automaton built by
  calls of \<open>insert\<close>, with substrings allowed, returns; it leaves the transitions as they
  are; and afterwards, for every state \<open>p\<close> other than the root, with path \<open>w\<close>:
  \<open>d_depth\<close> is the length of \<open>w\<close>; the failure pointer is the root when \<open>w\<close> has
  length 1; and the failure pointer is the state whose path \<open>v\<close> is the longest proper
  suffix of \<open>w\<close> that is a path of the trie.
\<close>

lemma failure_links_longest_proper_suffix:
  assumes "t = inserts (new_trie cfg) keywords" "d_allow_substrings cfg"
  shows "\<exists>t'. check_postprocess enumerating_map t = Some t' \<and>
     (\<forall>w. walk (states t') root w = walk (states t) root w) \<and>
     (\<forall>w p. w \<noteq> [] \<and> walk (states t') root w = Some p \<longrightarrow>
        d_depth (states t' ! p) = length w \<and>
        (length w = 1 \<longrightarrow> d_failure (states t' ! p) = Some root) \<and>
        (\<exists>f v. d_failure (states t' ! p) = Some f \<and> walk (states t') root v = Some f \<and>
           strict_suffix v w \<and>
           (\<forall>u. strict_suffix u w \<and> walk (states t') root u \<noteq> None \<longrightarrow> length u \<le> length v)))"
proof -
  from built_compiles [OF assms] obtain t' pth where
    cp: "check_postprocess enumerating_map t = Some t'" and
    co: "compiled (states t) pth (set (all_emits (states t))) (states t')"
    by blast
  let ?ha = "states t" and ?hb = "states t'"
  have inv: "trie_inv ?ha pth" and top: "same_topology ?ha ?hb" and
    fo: "\<forall>p<length ?ha. p \<noteq> root \<longrightarrow> fail_ok ?ha pth ?hb p"
    using co by (simp_all add: compiled_def)
  have w: "\<And>w. walk ?hb root w = walk ?ha root w"
    using same_topology_walk [OF inv top root_less [OF inv]] .
  have main: "d_depth (?hb ! p) = length w \<and>
        (length w = 1 \<longrightarrow> d_failure (?hb ! p) = Some root) \<and>
        (\<exists>f v. d_failure (?hb ! p) = Some f \<and> walk ?hb root v = Some f \<and> strict_suffix v w \<and>
           (\<forall>u. strict_suffix u w \<and> walk ?hb root u \<noteq> None \<longrightarrow> length u \<le> length v))"
    if a: "w \<noteq> [] \<and> walk ?hb root w = Some p" for w p
  proof -
    from a have wp: "walk ?ha root w = Some p"
      by (simp add: w)
    from walk_root_path [OF inv wp] have p: "p < length ?ha" "pth p = w"
      by simp_all
    have "p \<noteq> root"
      using p a pth_root [OF inv] by auto
    with fo p obtain f where
      f: "d_failure (?hb ! p) = Some f" "f < length ?ha" "is_lps ?ha (pth f) w"
      unfolding fail_ok_def by auto
    have d: "d_depth (?hb ! p) = length w"
      using inv top p unfolding trie_inv_def same_topology_def by auto
    have wf: "walk ?hb root (pth f) = Some f"
      using inv f(2) unfolding w trie_inv_def by blast
    have ss: "strict_suffix (pth f) w" and
      mx: "\<forall>u. strict_suffix u w \<and> walk ?hb root u \<noteq> None \<longrightarrow> length u \<le> length (pth f)"
      using f(3) unfolding is_lps_def in_trie_def w by simp_all
    have one: "d_failure (?hb ! p) = Some root" if "length w = 1"
    proof -
      from ss that have "length (pth f) = 0"
        using suffix_length_less [of "pth f" w] by simp
      then have "f = root"
        using pth_Nil_root [OF inv f(2)] by simp
      with f(1) show ?thesis by simp
    qed
    from d one f(1) wf ss mx show ?thesis
      by blast
  qed
  from cp w main show ?thesis
    by blast
qed

lemma failure_links_ushers:
  "\<exists>t'. check_postprocess enumerating_map ushers_trie = Some t' \<and>
     walk (states t') root ''h'' = Some 1 \<and> d_failure (states t' ! 1) = Some root \<and>
     walk (states t') root ''she'' = Some 5 \<and> d_depth (states t' ! 5) = 3 \<and>
     (\<exists>f v. d_failure (states t' ! 5) = Some f \<and> walk (states t') root v = Some f \<and>
        strict_suffix v ''she'')"
proof -
  have a: "d_allow_substrings default_config"
    by (simp add: default_config_def)
  from failure_links_longest_proper_suffix [OF ushers_trie_def a] obtain t' where
    cp: "check_postprocess enumerating_map ushers_trie = Some t'" and
    w: "\<forall>w. walk (states t') root w = walk (states ushers_trie) root w" and
    m: "\<forall>w p. w \<noteq> [] \<and> walk (states t') root w = Some p \<longrightarrow>
        d_depth (states t' ! p) = length w \<and>
        (length w = 1 \<longrightarrow> d_failure (states t' ! p) = Some root) \<and>
        (\<exists>f v. d_failure (states t' ! p) = Some f \<and> walk (states t') root v = Some f \<and>
           strict_suffix v w \<and>
           (\<forall>u. strict_suffix u w \<and> walk (states t') root u \<noteq> None \<longrightarrow> length u \<le> length v))"
    by blast
  have e1: "walk (states ushers_trie) root ''h'' = Some 1"
    by code_simp
  have e5: "walk (states ushers_trie) root ''she'' = Some 5"
    by code_simp
  have w1: "walk (states t') root ''h'' = Some 1"
    using w e1 by (simp only:)
  have w5: "walk (states t') root ''she'' = Some 5"
    using w e5 by (simp only:)
  from m [rule_format, of "''h''" 1] w1 have f1: "d_failure (states t' ! 1) = Some root"
    by simp
  from m [rule_format, of "''she''" 5] w5 have
    "d_depth (states t' ! 5) = 3 \<and>
     (\<exists>f v. d_failure (states t' ! 5) = Some f \<and> walk (states t') root v = Some f \<and>
        strict_suffix v ''she'')"
    by auto
  with cp w1 f1 w5 show ?thesis
    by blast
qed

text \<open>The failure pointers of the automaton for "he", "she", "hers", "his".\<close>

lemma ushers_failure_links:
  "map_option (\<lambda>t. map d_failure (states t)) (check_postprocess enumerating_map ushers_trie) =
     Some [None, Some 0, Some 0, Some 0, Some 1, Some 2, Some 0, Some 3, Some 0, Some 3]"
  by code_simp

text \<open>
  The lemma needs substrings allowed. With substrings disallowed, the loop that looks for
  \<open>new_failure_state\<close> steps from a state to its failure pointer after it has cleared an
  emit, also when the state is the root, whose failure pointer is null: for the keywords "a"
  and "ba" compilation dereferences it and has no result.
\<close>

lemma no_substrings_compilation_fails:
  "check_postprocess enumerating_map (inserts (new_trie no_substrings_config) [''a'', ''ba'']) = None"
  by code_simp

subsection \<open>Scanning with an enumerating transition map\<close>

lemma get_state_total:
  assumes co: "compiled h0 pth E h"
  shows "cur < length h0 \<Longrightarrow> suffix (pth cur) w \<Longrightarrow>
     \<exists>nx. get_state h cur c = Some nx \<and> nx < length h0 \<and> suffix (pth nx) (w @ [c])"
proof (induction "length (pth cur)" arbitrary: cur rule: less_induct)
  case less
  have inv: "trie_inv h0 pth" and top: "same_topology h0 h"
    using co by (simp_all add: compiled_def)
  note ns = next_state_inv [OF inv top less.prems(1), of c]
  show ?case
  proof (cases "find_tm c (d_success (h0 ! cur))")
    case (Some r)
    with ns have "get_state h cur c = Some r"
      by (subst get_state.simps) simp
    moreover from Some inv less.prems(1) have "r < length h0" "pth r = pth cur @ [c]"
      unfolding trie_inv_def by blast+
    ultimately show ?thesis
      using less.prems(2) by simp
  next
    case None
    show ?thesis
    proof (cases "cur = root")
      case True
      with None ns have "get_state h cur c = Some root"
        by (subst get_state.simps) simp
      with root_less [OF inv] pth_root [OF inv] show ?thesis
        by simp
    next
      case False
      with None ns have n: "next_state (h ! cur) c = None"
        by simp
      from co False less.prems(1) obtain f where
        f: "d_failure (h ! cur) = Some f" "f < length h0" "is_lps h0 (pth f) (pth cur)"
        unfolding compiled_def fail_ok_def by blast
      have g: "get_state h cur c = get_state h f c"
        using n f(1) by (subst get_state.simps) simp
      have sf: "strict_suffix (pth f) (pth cur)"
        using f(3) by (simp add: is_lps_def)
      then have "suffix (pth f) w"
        using less.prems(2) by (auto simp: strict_suffix_def intro: suffix_order.trans)
      from less.hyps [OF suffix_length_less [OF sf] f(2) this] g show ?thesis
        by simp
    qed
  qed
qed

lemma unat_of_nat_64: "n < 2 ^ 64 \<Longrightarrow> unat (of_nat n :: 64 word) = n"
  by (simp add: unat_of_nat)

lemma store_emit_in_text:
  assumes sf: "suffix kw (pre @ [c])" and ne: "kw \<noteq> []" and len: "length (pre @ c # text) < 2 ^ 64"
  shows "emit_in_text (pre @ c # text)
     (make_emit (of_nat (length pre) - of_nat (length kw) + 1) (of_nat (length pre)) kw i)"
proof -
  let ?n = "length pre" and ?k = "length kw"
  from sf obtain zs where zs: "pre @ [c] = zs @ kw"
    by (auto simp: suffix_def)
  then have lz: "length zs + ?k = ?n + 1"
    by (metis length_append length_append_singleton Suc_eq_plus1)
  have n64: "?n < 2 ^ 64" "?n + 1 - ?k < 2 ^ 64"
    using len by simp_all
  have "(of_nat ?n :: 64 word) - of_nat ?k + 1 = of_nat (?n + 1) - of_nat ?k"
    by simp
  also have "\<dots> = of_nat (?n + 1 - ?k)"
    using lz by (simp add: of_nat_diff)
  finally have st: "(of_nat ?n :: 64 word) - of_nat ?k + 1 = of_nat (?n + 1 - ?k)" .
  have us: "unat ((of_nat ?n :: 64 word) - of_nat ?k + 1) = ?n + 1 - ?k"
    unfolding st using n64(2) by (rule unat_of_nat_64)
  have ue: "unat (of_nat ?n :: 64 word) = ?n"
    using n64(1) by (rule unat_of_nat_64)
  have full: "pre @ c # text = zs @ kw @ text"
    using zs by (metis append.assoc append_Cons append_Nil)
  have lz': "?n + 1 - ?k = length zs"
    using lz by simp
  have "take ?k (drop (length zs) (zs @ kw @ text)) = kw"
    by simp
  then have tk: "take ?k (drop (?n + 1 - ?k) (pre @ c # text)) = kw"
    unfolding full lz' .
  show ?thesis
    unfolding emit_in_text_def using us ue tk lz by (simp add: make_emit_def)
qed

lemma scan_loop_total:
  assumes co: "compiled h0 pth E h"
  shows "cur < length h0 \<Longrightarrow> suffix (pth cur) pre \<Longrightarrow> length (pre @ text) < 2 ^ 64 \<Longrightarrow>
     \<exists>es. scan_loop tolower False h text (of_nat (length pre)) cur acc = Some (acc @ es) \<and>
        (\<forall>e\<in>set es. emit_in_text (pre @ text) e \<and> (d_keyword e, d_index e) \<in> E)"
proof (induction "text" arbitrary: cur pre acc)
  case Nil
  then show ?case by simp
next
  case (Cons c tx)
  from get_state_total [OF co Cons.prems(1,2), of c] obtain nx where
    nx: "get_state h cur c = Some nx" "nx < length h0" "suffix (pth nx) (pre @ [c])"
    by blast
  have len: "length h = length h0" and eo: "emits_ok E pth h"
    using co by (simp_all add: compiled_def same_topology_def)
  let ?new = "map (\<lambda>str. make_emit (of_nat (length pre) - of_nat (length (fst str)) + 1)
                    (of_nat (length pre)) (fst str) (snd str)) (d_emits (h ! nx))"
  have l2: "length ((pre @ [c]) @ tx) < 2 ^ 64"
    using Cons.prems(3) by simp
  from Cons.IH [OF nx(2,3) l2, of "acc @ ?new"] obtain es where
    es: "scan_loop tolower False h tx (of_nat (length (pre @ [c]))) nx (acc @ ?new) =
           Some ((acc @ ?new) @ es)"
      "\<forall>e\<in>set es. emit_in_text ((pre @ [c]) @ tx) e \<and> (d_keyword e, d_index e) \<in> E"
    by blast
  have sl: "scan_loop tolower False h (c # tx) (of_nat (length pre)) cur acc =
      Some (acc @ (?new @ es))"
    using nx(1) es(1) by (simp add: store_emits_def add.commute)
  have "\<forall>e\<in>set ?new. emit_in_text (pre @ c # tx) e \<and> (d_keyword e, d_index e) \<in> E"
  proof
    fix e
    assume "e \<in> set ?new"
    then obtain str where str: "str \<in> set (d_emits (h ! nx))" and
      e: "e = make_emit (of_nat (length pre) - of_nat (length (fst str)) + 1)
                    (of_nat (length pre)) (fst str) (snd str)"
      by auto
    from eo str nx(2) len have k: "fst str \<noteq> []" "suffix (fst str) (pth nx)" "str \<in> E"
      unfolding emits_ok_def by force+
    have "suffix (fst str) (pre @ [c])"
      using k(2) nx(3) by (rule suffix_order.trans)
    from store_emit_in_text [OF this k(1) Cons.prems(3)] k(3) show
      "emit_in_text (pre @ c # tx) e \<and> (d_keyword e, d_index e) \<in> E"
      unfolding e by (simp add: make_emit_def)
  qed
  with es(2) sl show ?case
    by auto
qed

lemma accepted_subset: "set (accepted t kws) \<subseteq> set kws"
proof (induction kws arbitrary: t)
  case Nil
  then show ?case by simp
next
  case (Cons kw kws)
  then show ?case
    unfolding accepted_Cons by auto
qed

lemma built_emit_keyword:
  assumes "t = inserts (new_trie cfg) kws" "(k, i) \<in> set (all_emits (states t))"
  shows "k \<in> set kws"
proof -
  have "mset (all_emits (states t)) =
      mset (zip (accepted (new_trie cfg) kws)
             (map of_nat [0..<length (accepted (new_trie cfg) kws)]))"
    using built_emits [of cfg kws] assms(1) by simp
  then have "set (all_emits (states t)) =
      set (zip (accepted (new_trie cfg) kws)
             (map of_nat [0..<length (accepted (new_trie cfg) kws)]))"
    by (metis set_mset_mset)
  with assms(2) have "k \<in> set (accepted (new_trie cfg) kws)"
    by (auto dest: set_zip_leftD)
  with accepted_subset show ?thesis
    by blast
qed

text \<open>
  The automaton for "he", "she", "hers", "his" on the text "ushers": with the positions
  u = 0, s = 1, h = 2, e = 3, r = 4, s = 5, "he" ends at 3 and "hers" occupies [2, 5].
\<close>

lemma ushers_scan_ranges:
  "scan_ranges enumerating_map tolower isalpha ushers_trie ''ushers'' =
     Some [(''she'', 1, 3), (''he'', 2, 3), (''hers'', 2, 5)]"
  by code_simp

text \<open>
  With \<open>enumerating_map\<close> for \<open>TransitionMap\<close>, for an automaton built by calls of
  \<open>insert\<close> under the default configuration and a text shorter than \<open>2 ^ 64\<close>,
  \<open>parse_text\<close> returns, and every emit \<open>e\<close> that it returns satisfies
  \<open>start = end - |keyword| + 1\<close>; \<open>end\<close> is a position of the text; the range from
  \<open>start\<close> to \<open>end\<close> has the length of the keyword; the text at this range is the
  keyword; and the keyword is one of the inserted keywords.
\<close>

lemma emits_match_text:
  assumes "t = inserts (new_trie default_config) keywords" "length text < 2 ^ 64"
  shows "\<exists>t' es. parse_text enumerating_map tolower isalpha t text = Some (t', es) \<and>
     (\<forall>e\<in>set es.
        d_start e = d_end e - of_nat (length (d_keyword e)) + 1 \<and>
        unat (d_end e) < length text \<and>
        unat (d_start e) + length (d_keyword e) = unat (d_end e) + 1 \<and>
        take (length (d_keyword e)) (drop (unat (d_start e)) text) = d_keyword e \<and>
        d_keyword e \<in> set keywords)"
proof -
  have a: "d_allow_substrings default_config"
    by (simp add: default_config_def)
  from built_compiles [OF assms(1) a] obtain t' pth where
    cp: "check_postprocess enumerating_map t = Some t'" and cf: "d_config t' = default_config" and
    co: "compiled (states t) pth (set (all_emits (states t))) (states t')"
    by blast
  have inv: "trie_inv (states t) pth"
    using co by (simp add: compiled_def)
  have r: "root < length (states t)" "suffix (pth root) []"
    using root_less [OF inv] pth_root [OF inv] by simp_all
  have l: "length ([] @ text) < 2 ^ 64"
    using assms(2) by simp
  from scan_loop_total [OF co r l, of tolower "[]"] obtain es where
    sl: "scan_loop tolower False (states t') text 0 root [] = Some es" and
    es: "\<forall>e\<in>set es. emit_in_text text e \<and> (d_keyword e, d_index e) \<in> set (all_emits (states t))"
    by auto
  have pt: "parse_text enumerating_map tolower isalpha t text = Some (t', es)"
    using cp sl by (simp add: parse_text_def cf default_config_def)
  have "\<forall>e\<in>set es.
        d_start e = d_end e - of_nat (length (d_keyword e)) + 1 \<and>
        unat (d_end e) < length text \<and>
        unat (d_start e) + length (d_keyword e) = unat (d_end e) + 1 \<and>
        take (length (d_keyword e)) (drop (unat (d_start e)) text) = d_keyword e \<and>
        d_keyword e \<in> set keywords"
    using es built_emit_keyword [OF assms(1)] unfolding emit_in_text_def by blast
  with pt show ?thesis
    by blast
qed

lemma emits_match_ushers:
  "\<exists>t' es. parse_text enumerating_map no_tolower no_isalpha ushers_trie ''ushers'' = Some (t', es) \<and>
     map emit_range es = [(''she'', 1, 3), (''he'', 2, 3), (''hers'', 2, 5)] \<and>
     (\<forall>e\<in>set es. take (length (d_keyword e)) (drop (unat (d_start e)) ''ushers'') = d_keyword e)"
proof -
  have l: "length ''ushers'' < 2 ^ 64"
    by simp
  from emits_match_text [OF ushers_trie_def l, of no_tolower no_isalpha] obtain t' es where
    p: "parse_text enumerating_map no_tolower no_isalpha ushers_trie ''ushers'' = Some (t', es)" and
    e: "\<forall>e\<in>set es. take (length (d_keyword e)) (drop (unat (d_start e)) ''ushers'') = d_keyword e"
    by blast
  have "map emit_range es = [(''she'', 1, 3), (''he'', 2, 3), (''hers'', 2, 5)]"
    using ushers_scan_ranges [of no_tolower no_isalpha] p by (simp add: scan_ranges_def scan_def)
  with p e show ?thesis
    by auto
qed

subsection \<open>Compilation keeps the emits, with an enumerating transition map\<close>

lemma weak_inv_update:
  assumes "weak_inv h0 E h" "d_success s = d_success (h ! p)" "d_root s = d_root (h ! p)"
    "d_depth s = d_depth (h ! p)" "\<forall>f. d_failure s = Some f \<longrightarrow> f < length h0"
    "set (d_emits s) \<subseteq> E"
  shows "weak_inv h0 E (h[p := s])"
proof -
  have l: "length h = length h0"
    using assms(1) by (simp add: weak_inv_def same_topology_def)
  have "same_topology h (h[p := s])"
    using assms(2-4) by (rule same_topology_update)
  then have t: "same_topology h0 (h[p := s])"
    using assms(1) by (auto simp: weak_inv_def intro: same_topology_trans)
  have "\<forall>q<length h0. (\<forall>f. d_failure (h[p := s] ! q) = Some f \<longrightarrow> f < length h0) \<and>
      set (d_emits (h[p := s] ! q)) \<subseteq> E"
  proof (intro allI impI)
    fix q
    assume "q < length h0"
    with assms(1,5,6) l show "(\<forall>f. d_failure (h[p := s] ! q) = Some f \<longrightarrow> f < length h0) \<and>
      set (d_emits (h[p := s] ! q)) \<subseteq> E"
      by (cases "q = p") (simp_all add: weak_inv_def)
  qed
  with t show ?thesis
    by (simp add: weak_inv_def)
qed

lemma weak_inv_clear:
  assumes "weak_inv h0 E h"
  shows "weak_inv h0 E (h[p := clear_emits (h ! p)])"
proof (cases "p < length h0")
  case True
  with assms show ?thesis
    by (intro weak_inv_update) (simp_all add: clear_emits_def weak_inv_def)
next
  case False
  with assms show ?thesis
    by (simp add: weak_inv_def same_topology_def)
qed

lemma assign_indices_loop_frame:
  assumes "assign_indices_loop TM store h bfs q i = Some y"
  shows "same_but_idx h (fst y)"
proof (rule assign_indices_loop.raw_induct
    [where P = "\<lambda>TM store h bfs q i y. same_but_idx h (fst y)", OF _ assms], goal_cases)
  case (1 loop TM store h bfs q i y)
  show ?case
  proof (cases q)
    case Nil
    with 1(2) show ?thesis
      by (auto simp: same_but_idx_refl)
  next
    case (Cons cur rest)
    with 1(2) obtain state_ptrs where "loop TM store (h[cur := set_index i (h ! cur)])
        (if store then bfs @ [cur] else bfs) (rest @ state_ptrs) (i + 1) = Some y"
      by (auto split: sum.splits)
    from 1(1) [OF this] same_but_idx_set_index [of h cur i] show ?thesis
      by (rule same_but_idx_trans [rotated])
  qed
qed

lemma remove_prefixes_from_state_weak:
  "remove_prefixes_from_state h cur = Some h1 \<Longrightarrow> weak_inv h0 E h \<Longrightarrow> weak_inv h0 E h1"
  by (auto simp: remove_prefixes_from_state_def Let_def weak_inv_clear split: if_splits)

lemma remove_prefixes_list_weak:
  "remove_prefixes_list h q = Some h1 \<Longrightarrow> weak_inv h0 E h \<Longrightarrow> weak_inv h0 E h1"
  by (induction q arbitrary: h)
    (auto split: option.splits dest: remove_prefixes_from_state_weak)

lemma remove_prefixes_loop_weak:
  assumes "remove_prefixes_loop TM h q = Some h1"
  shows "weak_inv h0 E h \<longrightarrow> weak_inv h0 E h1"
proof (rule remove_prefixes_loop.raw_induct
    [where P = "\<lambda>TM h q h1. weak_inv h0 E h \<longrightarrow> weak_inv h0 E h1", OF _ assms], goal_cases)
  case (1 loop TM h q h1)
  show ?case
  proof (cases q)
    case Nil
    with 1(2) show ?thesis by simp
  next
    case (Cons cur rest)
    with 1(2) obtain h2 state_ptrs where a: "remove_prefixes_from_state h cur = Some h2" and
      b: "loop TM h2 (rest @ state_ptrs) = Some h1"
      by (auto split: option.splits sum.splits)
    from 1(1) [OF b] remove_prefixes_from_state_weak [OF a] show ?thesis
      by blast
  qed
qed

lemma trace_failure_range:
  assumes "trace_failure h tr c = Some y"
  shows "weak_inv h0 E h \<longrightarrow> (\<forall>x. tr = Some x \<longrightarrow> x < length h0) \<longrightarrow> y < length h0"
proof (rule trace_failure.raw_induct
    [where P = "\<lambda>h tr c y. weak_inv h0 E h \<longrightarrow> (\<forall>x. tr = Some x \<longrightarrow> x < length h0) \<longrightarrow>
       y < length h0", OF _ assms], goal_cases)
  case (1 loop h tr c y)
  show ?case
  proof (intro impI)
    assume w: "weak_inv h0 E h" and r: "\<forall>x. tr = Some x \<longrightarrow> x < length h0"
    from 1(2) obtain x where x: "tr = Some x"
      by (cases tr) auto
    with r have xl: "x < length h0" by simp
    show "y < length h0"
    proof (cases "next_state (h ! x) c = None")
      case True
      with 1(2) x have "loop h (d_failure (h ! x)) c = Some y"
        by simp
      from 1(1) [OF this] w xl show ?thesis
        by (simp add: weak_inv_def)
    next
      case False
      with 1(2) x xl show ?thesis by simp
    qed
  qed
qed

lemma next_state_range:
  assumes "trie_inv h0 pth" "weak_inv h0 E h" "p < length h0" "next_state (h ! p) c = Some q"
  shows "q < length h0"
proof -
  have top: "same_topology h0 h"
    using assms(2) by (simp add: weak_inv_def)
  show ?thesis
  proof (cases "find_tm c (d_success (h0 ! p))")
    case None
    with next_state_inv [OF assms(1) top assms(3), of c] assms(4) root_less [OF assms(1)]
    show ?thesis by (auto split: if_splits)
  next
    case (Some r)
    with next_state_inv [OF assms(1) top assms(3), of c] assms(4) have "q = r"
      by simp
    with Some assms(1,3) show ?thesis
      unfolding trie_inv_def by blast
  qed
qed

lemma new_failure_weak:
  assumes inv: "trie_inv h0 pth"
    and nf: "new_failure allow h tr c = Some y"
  shows "weak_inv h0 E h \<longrightarrow> (\<forall>x. tr = Some x \<longrightarrow> x < length h0) \<longrightarrow>
     weak_inv h0 E (fst y) \<and> snd y < length h0"
proof (rule new_failure.raw_induct
    [where P = "\<lambda>allow h tr c y. weak_inv h0 E h \<longrightarrow> (\<forall>x. tr = Some x \<longrightarrow> x < length h0) \<longrightarrow>
       weak_inv h0 E (fst y) \<and> snd y < length h0", OF _ nf], goal_cases)
  case (1 loop allow h tr c y)
  show ?case
  proof (intro impI)
    assume w: "weak_inv h0 E h" and r: "\<forall>x. tr = Some x \<longrightarrow> x < length h0"
    from 1(2) obtain tr' nf where t: "trace_failure h tr c = Some tr'" and
      n: "next_state (h ! tr') c = Some nf"
      by (auto split: option.splits)
    have tl: "tr' < length h0"
      using trace_failure_range [OF t] w r by blast
    have nl: "nf < length h0"
      using inv w tl n by (rule next_state_range)
    show "weak_inv h0 E (fst y) \<and> snd y < length h0"
    proof (cases "\<not> allow \<and> length (d_emits (h ! nf)) \<noteq> 0")
      case True
      with 1(2) t n have "loop allow (h[nf := clear_emits (h ! nf)]) (d_failure (h ! tr')) c = Some y"
        by simp
      moreover have "\<forall>x. d_failure (h ! tr') = Some x \<longrightarrow> x < length h0"
        using w tl by (simp add: weak_inv_def)
      ultimately show ?thesis
        using 1(1) weak_inv_clear [OF w, of nf] by blast
    next
      case False
      with 1(2) t n have "y = (h, nf)"
        by auto
      with w nl show ?thesis by simp
    qed
  qed
qed

lemma failure_transition_weak:
  assumes inv: "trie_inv h0 pth" and w: "weak_inv h0 E h" and cur: "cur < length h0"
    and ft: "failure_transition allow cur c (h, q) = Some (h', q')"
  shows "weak_inv h0 E h' \<and> (\<exists>tgt<length h0. q' = q @ [tgt])"
proof -
  from ft obtain tgt h1 nf where n: "next_state (h ! cur) c = Some tgt" and
    nf: "new_failure allow h (d_failure (h ! cur)) c = Some (h1, nf)" and
    h': "h' = (h1[tgt := set_failure (Some nf) (h1 ! tgt)])
              [tgt := add_emits (d_emits (h1[tgt := set_failure (Some nf) (h1 ! tgt)] ! nf))
                 (h1[tgt := set_failure (Some nf) (h1 ! tgt)] ! tgt)]" and
    q': "q' = q @ [tgt]"
    unfolding failure_transition_def by (auto simp: Let_def split: option.splits)
  have tl: "tgt < length h0"
    using inv w cur n by (rule next_state_range)
  have "\<forall>x. d_failure (h ! cur) = Some x \<longrightarrow> x < length h0"
    using w cur by (simp add: weak_inv_def)
  with new_failure_weak [OF inv nf, of E] w have w1: "weak_inv h0 E h1" and nl: "nf < length h0"
    by simp_all
  have l1: "length h1 = length h0"
    using w1 by (simp add: weak_inv_def same_topology_def)
  let ?h2 = "h1[tgt := set_failure (Some nf) (h1 ! tgt)]"
  have w2: "weak_inv h0 E ?h2"
    using w1 nl tl by (intro weak_inv_update) (simp_all add: set_failure_def weak_inv_def)
  have l2: "length ?h2 = length h0"
    using l1 by simp
  have "weak_inv h0 E (?h2[tgt := add_emits (d_emits (?h2 ! nf)) (?h2 ! tgt)])"
  proof (rule weak_inv_update [OF w2])
    show "\<forall>f. d_failure (add_emits (d_emits (?h2 ! nf)) (?h2 ! tgt)) = Some f \<longrightarrow> f < length h0"
      using w2 tl by (simp add: add_emits_eq weak_inv_def)
    show "set (d_emits (add_emits (d_emits (?h2 ! nf)) (?h2 ! tgt))) \<subseteq> E"
      using w2 tl nl unfolding add_emits_eq weak_inv_def by simp
  qed (simp_all add: add_emits_eq)
  with h' q' tl show ?thesis
    by blast
qed

lemma failure_transitions_weak:
  assumes inv: "trie_inv h0 pth" and cur: "cur < length h0"
  shows "failure_transitions allow cur cs (h, q) = Some (h', q') \<Longrightarrow> weak_inv h0 E h \<Longrightarrow>
     \<forall>p\<in>set q. p < length h0 \<Longrightarrow>
     weak_inv h0 E h' \<and> (\<forall>p\<in>set q'. p < length h0)"
proof (induction cs arbitrary: h q)
  case Nil
  then show ?case by simp
next
  case (Cons c cs)
  from Cons.prems(1) obtain h1 q1 where
    a: "failure_transition allow cur c (h, q) = Some (h1, q1)" and
    b: "failure_transitions allow cur cs (h1, q1) = Some (h', q')"
    by (auto split: option.splits)
  from failure_transition_weak [OF inv Cons.prems(2) cur a] Cons.prems(3)
  have "weak_inv h0 E h1" "\<forall>p\<in>set q1. p < length h0"
    by auto
  from Cons.IH [OF b this] show ?case .
qed

lemma failure_loop_weak:
  assumes inv: "trie_inv h0 pth"
    and fl: "failure_loop TM allow h q = Some h'"
  shows "weak_inv h0 E h \<longrightarrow> (\<forall>p\<in>set q. p < length h0) \<longrightarrow> weak_inv h0 E h'"
proof (rule failure_loop.raw_induct
    [where P = "\<lambda>TM allow h q h'. weak_inv h0 E h \<longrightarrow> (\<forall>p\<in>set q. p < length h0) \<longrightarrow>
       weak_inv h0 E h'", OF _ fl], goal_cases)
  case (1 loop TM allow h q h')
  show ?case
  proof (intro impI)
    assume w: "weak_inv h0 E h" and ql: "\<forall>p\<in>set q. p < length h0"
    show "weak_inv h0 E h'"
    proof (cases q)
      case Nil
      with 1(2) w show ?thesis by simp
    next
      case (Cons cur rest)
      with 1(2) obtain h1 q1 transitions where
        a: "failure_transitions allow cur transitions (h, q) = Some (h1, q1)"
        and b: "loop TM allow h1 (tl q1) = Some h'"
        by (auto split: option.splits sum.splits)
      have cur: "cur < length h0"
        using ql Cons by simp
      from failure_transitions_weak [OF inv cur a w ql] have
        w1: "weak_inv h0 E h1" and q1: "\<forall>p\<in>set q1. p < length h0"
        by simp_all
      have "\<forall>p\<in>set (tl q1). p < length h0"
        using q1 by (cases q1) simp_all
      with 1(1) [OF b] w1 show ?thesis
        by blast
    qed
  qed
qed

lemma weak_inv_start:
  assumes "trie_inv h pth"
  shows "weak_inv h (set (all_emits h)) h \<longleftrightarrow> (\<forall>p<length h. \<forall>f. d_failure (h ! p) = Some f \<longrightarrow> f < length h)"
  unfolding weak_inv_def using all_emits_mem [of _ h] by auto

lemma weak_inv_all_emits:
  assumes "weak_inv h0 E h"
  shows "set (all_emits h) \<subseteq> E"
proof
  fix e
  assume "e \<in> set (all_emits h)"
  then obtain p where "p < length h" "e \<in> set (d_emits (h ! p))"
    unfolding all_emits_mem by blast
  with assms show "e \<in> E"
    by (auto simp: weak_inv_def same_topology_def)
qed

lemma construct_failure_states_weak:
  assumes inv: "trie_inv (states t) pth" and w: "weak_inv (states t) E (states t)"
    and c: "construct_failure_states enumerating_map t = Some t'"
  shows "weak_inv (states t) E (states t')"
proof -
  let ?hs = "states t"
  let ?d1 = "map snd (d_success (?hs ! root))"
  let ?h1 = "fold (\<lambda>s h. h[s := set_failure (Some root) (h ! s)]) ?d1 ?hs"
  note r0 = root_less [OF inv]
  have l1: "length ?h1 = length ?hs" and
    n1: "\<And>p. p < length ?hs \<Longrightarrow> ?h1 ! p =
      (if p \<in> set ?d1 then (?hs ! p)\<lparr>d_failure := Some root\<rparr> else ?hs ! p)"
    using depth_one_fold [of root ?d1 ?hs] by simp_all
  have w1: "weak_inv ?hs E ?h1"
    using w r0 l1 n1 unfolding weak_inv_def same_topology_def by simp
  have d1: "\<forall>p\<in>set ?d1. p < length ?hs"
    using entries_child [OF inv r0] by fastforce
  from c obtain h' where fl: "failure_loop enumerating_map (d_allow_substrings (d_config t)) ?h1 ?d1 = Some h'"
    and t': "t' = t\<lparr>states := h'\<rparr>"
    by (auto simp: construct_failure_states_def Let_def)
  from failure_loop_weak [OF inv fl, of E] w1 d1 t' show ?thesis
    by simp
qed

lemma check_postprocess_emits:
  assumes pre: "pre_inv t pth" and cp: "check_postprocess enumerating_map t = Some t'"
    and fr: "\<forall>p<length (states t). d_failure (states t ! p) = None"
  shows "set (all_emits (states t')) \<subseteq> set (all_emits (states t))"
proof (cases "d_postprocessed t")
  case True
  with cp show ?thesis
    by (simp add: check_postprocess_def)
next
  case False
  let ?E = "set (all_emits (states t))"
  have inv: "trie_inv (states t) pth"
    using pre by (simp add: pre_inv_def)
  from cp False obtain t1 t2 t3 where
    a: "assign_indices enumerating_map t = Some t1" and
    b: "(if \<not> d_allow_substrings (d_config t1) then remove_prefixes enumerating_map t1 else Some t1) = Some t2" and
    c: "construct_failure_states enumerating_map t2 = Some t3" and
    st: "states t' = states t3"
    by (auto simp: check_postprocess_def split: option.splits if_splits)
  from a obtain y where y: "assign_indices_loop enumerating_map (d_store_states_in_bfs_order (d_config t)) (states t)
      (d_states_in_bfs_order t) [root] 0 = Some y" and s1: "states t1 = fst y"
    by (auto simp: assign_indices_def split: option.splits)
  have sb: "same_but_idx (states t) (states t1)"
    using assign_indices_loop_frame [OF y] s1 by simp
  have l1: "length (states t1) = length (states t)"
    using sb by (simp add: same_but_idx_def)
  have w1: "weak_inv (states t) ?E (states t1)"
    unfolding weak_inv_def
    using same_but_idx_topology [OF sb] same_but_idx_fields(4,5) [OF sb] fr all_emits_mem [of _ "states t"]
    by auto
  have w2: "weak_inv (states t) ?E (states t2)"
  proof (cases "d_allow_substrings (d_config t1)")
    case True
    with b w1 show ?thesis by simp
  next
    case na: False
    with b have rp: "remove_prefixes enumerating_map t1 = Some t2"
      by simp
    show ?thesis
    proof (cases "d_store_states_in_bfs_order (d_config t1)")
      case True
      with rp obtain h2 where "remove_prefixes_list (states t1) (d_states_in_bfs_order t1) = Some h2"
        "t2 = t1\<lparr>states := h2\<rparr>"
        by (auto simp: remove_prefixes_def split: if_splits)
      with remove_prefixes_list_weak [OF _ w1] show ?thesis
        by simp
    next
      case False
      with rp obtain h2 where "remove_prefixes_loop enumerating_map (states t1) [root] = Some h2"
        "t2 = t1\<lparr>states := h2\<rparr>"
        by (auto simp: remove_prefixes_def)
      with remove_prefixes_loop_weak [of enumerating_map "states t1" "[root]" h2 "states t" ?E] w1
      show ?thesis
        by simp
    qed
  qed
  have top2: "same_topology (states t) (states t2)"
    using w2 by (simp add: weak_inv_def)
  have inv2: "trie_inv (states t2) pth"
    using inv top2 by (rule same_topology_inv)
  have l2: "length (states t2) = length (states t)"
    using top2 by (simp add: same_topology_def)
  have w2': "weak_inv (states t2) ?E (states t2)"
    using w2 l2 unfolding weak_inv_def by simp
  from construct_failure_states_weak [OF inv2 w2' c] have "weak_inv (states t2) ?E (states t3)" .
  from weak_inv_all_emits [OF this] st show ?thesis
    by simp
qed

lemma insert_path_no_failure:
  "trie_inv h pth \<Longrightarrow> cur < length h \<Longrightarrow> insert_path h cur kw = (h', p) \<Longrightarrow>
     no_failure h \<Longrightarrow> no_failure h'"
proof (induction kw arbitrary: h pth cur)
  case Nil
  then show ?case by simp
next
  case (Cons c kw)
  show ?case
  proof (cases "find_tm c (d_success (h ! cur))")
    case None
    with Cons.prems have ip: "insert_path (grow h cur c) (length h) kw = (h', p)"
      by (simp add: add_state_new)
    have inv1: "trie_inv (grow h cur c) (pth(length h := pth cur @ [c]))"
      using Cons.prems(1,2) None by (rule grow_inv)
    have "no_failure (grow h cur c)"
      unfolding no_failure_def
    proof (intro allI impI)
      fix q
      assume "q < length (grow h cur c)"
      then consider "q = length h" | "q = cur" | "q < length h" "q \<noteq> cur"
        by fastforce
      then show "d_failure (grow h cur c ! q) = None"
        using Cons.prems(2,4) unfolding no_failure_def
        by cases (simp_all add: grow_nth_new grow_nth_this grow_nth_other new_state_def)
    qed
    from Cons.IH [OF inv1 _ ip this] show ?thesis
      by simp
  next
    case (Some n)
    with Cons.prems(1,2) have n: "n < length h"
      unfolding trie_inv_def by blast
    from Some Cons.prems have "insert_path h n kw = (h', p)"
      by (simp add: add_state_found)
    from Cons.IH [OF Cons.prems(1) n this Cons.prems(4)] show ?thesis .
  qed
qed

lemma insert_trie_no_failure:
  assumes "trie_inv (states t) pth" "no_failure (states t)"
  shows "no_failure (states (fst (insert_trie t kw)))"
proof (cases "kw = []")
  case True
  with assms show ?thesis
    by (simp add: insert_trie_def)
next
  case False
  obtain h cur where ip: "insert_path (states t) root kw = (h, cur)"
    by (cases "insert_path (states t) root kw")
  have nf: "no_failure h"
    using assms(1) root_less [OF assms(1)] ip assms(2) by (rule insert_path_no_failure)
  have "no_failure (h[cur := add_emit kw i (h ! cur)])" for i
    unfolding no_failure_def
  proof (intro allI impI)
    fix q
    assume "q < length (h[cur := add_emit kw i (h ! cur)])"
    with nf show "d_failure (h[cur := add_emit kw i (h ! cur)] ! q) = None"
      by (cases "q = cur") (simp_all add: no_failure_def add_emit_def)
  qed
  with nf False ip show ?thesis
    by (simp add: insert_trie_def)
qed

lemma inserts_no_failure:
  "pre_inv t pth \<Longrightarrow> no_failure (states t) \<Longrightarrow> no_failure (states (inserts t kws))"
proof (induction kws arbitrary: t pth)
  case Nil
  then show ?case by (simp add: inserts_def)
next
  case (Cons kw kws)
  from insert_trie_pre_inv [OF Cons.prems(1)] obtain pth1 where
    p1: "pre_inv (fst (insert_trie t kw)) pth1"
    by blast
  have "no_failure (states (fst (insert_trie t kw)))"
    using insert_trie_no_failure [of t pth kw] Cons.prems by (simp add: pre_inv_def)
  from Cons.IH [OF p1 this] show ?case
    by (simp add: inserts_Cons)
qed

lemma built_no_failure: "no_failure (states (inserts (new_trie cfg) kws))"
  using inserts_no_failure [OF new_trie_pre_inv]
  by (simp add: no_failure_def new_trie_def new_state_def)

subsection \<open>Compilation and scanning with the header's transition map\<close>

text \<open>
  \<open>trie\<close> and \<open>wtrie\<close> are \<open>basic_trie\<close> with the header's own \<open>transition_map\<close>.
  The first loop of the compilation, in \<open>assign_indices\<close>, takes the root from the queue
  and asks it for its children through \<open>get_states\<close>, which returns nothing. So the
  compilation has no result, and neither has a scan of an automaton that is not compiled.
\<close>

lemma assign_indices_no_value: "assign_indices transition_map_class t = None"
  unfolding assign_indices_def by (subst assign_indices_loop.simps) simp

lemma check_postprocess_no_value:
  "\<not> d_postprocessed t \<Longrightarrow> check_postprocess transition_map_class t = None"
  by (simp add: check_postprocess_def assign_indices_no_value)

lemma parse_text_no_value:
  "\<not> d_postprocessed t \<Longrightarrow> parse_text transition_map_class tolower isalpha t text = None"
  by (simp add: parse_text_def check_postprocess_no_value)

lemma built_not_postprocessed: "\<not> d_postprocessed (inserts (new_trie cfg) kws)"
  by (simp add: new_trie_def)

lemma check_postprocess_built:
  "check_postprocess transition_map_class (inserts (new_trie cfg) kws) = None"
  by (rule check_postprocess_no_value) (rule built_not_postprocessed)

lemma parse_text_built:
  "parse_text transition_map_class tolower isalpha (inserts (new_trie cfg) kws) text = None"
  by (rule parse_text_no_value) (rule built_not_postprocessed)

lemma built_failure_null: "d_failure ` set (states (inserts (new_trie cfg) kws)) = {None}"
proof -
  let ?h = "states (inserts (new_trie cfg) kws)"
  from built_pre_inv [of cfg kws] obtain pth where "trie_inv ?h pth"
    by (auto simp: pre_inv_def)
  then have "?h \<noteq> []"
    using root_less [of ?h pth] by auto
  moreover have "\<forall>s\<in>set ?h. d_failure s = None"
    using built_no_failure [of cfg kws] by (auto simp: no_failure_def in_set_conv_nth)
  ultimately show ?thesis
    by (cases ?h) auto
qed

text \<open>
  C2. After the compilation of an automaton built under the default configuration, the
  failure pointer of a state of depth 1 should be the root, and that of a deeper state the
  state of the longest proper suffix of its path. With the header's transition map the
  compilation of such an automaton has no result, for every list of keywords: it ends in
  \<open>assign_indices\<close>, before \<open>construct_failure_states\<close> is called, and the failure
  pointer of every state is the null pointer that the constructor of \<open>state\<close> stored.
\<close>

theorem compilation_sets_no_failure_link:
  "check_postprocess transition_map_class (inserts (new_trie default_config) keywords) = None \<and>
   d_failure ` set (states (inserts (new_trie default_config) keywords)) = {None}"
  using check_postprocess_built [of default_config "keywords"]
    built_failure_null [of default_config "keywords"] by (rule conjI)


text \<open>
  C5. For the keywords "he", "she", "hers", "his" with overlaps and substrings allowed, a scan
  of "ushers" should return emits for "he", "she" and "hers". With the header's transition
  map the scan has no result.
\<close>

theorem ushers_scan_no_result:
  "parse_text transition_map_class tolower isalpha ushers_trie ''ushers'' = None \<and>
   scan_ranges transition_map_class tolower isalpha ushers_trie ''ushers'' = None"
  by (simp add: scan_ranges_def scan_def ushers_trie_def parse_text_built)


subsection \<open>Keyword indices\<close>

text \<open>
  C7 states that no keyword receives two indices. With substrings allowed, as they are by
  default, a keyword inserted twice is accepted twice, and its state carries it with the
  indices 0 and 1.
\<close>

theorem insert_twice_two_indices_counterexample:
  "d_emits (states (inserts (new_trie default_config) [''he'', ''he'']) ! 2) =
     [(''he'', 0), (''he'', 1)]"
  by code_simp

lemma inserts_keep_emits:
  assumes "pre_inv t pth"
  shows "mset (all_emits (states t)) \<subseteq># mset (all_emits (states (inserts t further)))"
  using inserts_emits [OF assms, of further] by simp

lemma accepted_allow_substrings:
  "d_allow_substrings (d_config t) \<Longrightarrow> accepted t kws = filter (\<lambda>k. k \<noteq> []) kws"
proof (induction kws arbitrary: t)
  case Nil
  then show ?case by simp
next
  case (Cons kw kws)
  have "snd (insert_trie t kw) \<noteq> None"
    using Cons.prems by (auto simp: insert_trie_def split: prod.splits)
  then have "accepted t (kw # kws) =
      (if kw \<noteq> [] then [kw] else []) @ accepted (fst (insert_trie t kw)) kws"
    by (simp add: accepted_Cons del: accepted.simps)
  also have "accepted (fst (insert_trie t kw)) kws = filter (\<lambda>k. k \<noteq> []) kws"
    using Cons.IH [of "fst (insert_trie t kw)"] Cons.prems by simp
  finally show ?case
    by simp
qed

text \<open>
  C7, as the code has it. For an automaton built by calls of \<open>insert\<close> under any
  configuration, the emits stored in the automaton are the keywords of the accepted calls, in
  the order of the calls, with the indices 0, 1, 2, ... (as 32-bit values), and the counter is
  their number; further calls of \<open>insert\<close> keep every stored emit with its index; when
  substrings are disallowed, no keyword is stored with two indices; and when substrings are
  allowed, every call with a keyword that is not empty is accepted, also when the keyword has
  been inserted before.
\<close>

theorem keyword_indices:
  assumes "t = inserts (new_trie cfg) keywords" "acc = accepted (new_trie cfg) keywords"
  shows "mset (all_emits (states t)) = mset (zip acc (map of_nat [0..<length acc])) \<and>
     d_num_keywords t = of_nat (length acc) \<and>
     (\<forall>further. mset (all_emits (states t)) \<subseteq># mset (all_emits (states (inserts t further)))) \<and>
     (\<not> d_allow_substrings cfg \<longrightarrow>
        (\<forall>k i j. (k, i) \<in> set (all_emits (states t)) \<and> (k, j) \<in> set (all_emits (states t)) \<longrightarrow>
           i = j)) \<and>
     (d_allow_substrings cfg \<longrightarrow> acc = filter (\<lambda>k. k \<noteq> []) keywords)"
proof (intro conjI allI impI)
  from built_pre_inv [where cfg = cfg and kws = "keywords"] assms(1) obtain pth where
    pre: "pre_inv t pth"
    by blast
  show "mset (all_emits (states t)) = mset (zip acc (map of_nat [0..<length acc]))"
    "d_num_keywords t = of_nat (length acc)"
    using built_emits [where cfg = cfg and kws = "keywords"] assms by simp_all
  show "mset (all_emits (states t)) \<subseteq># mset (all_emits (states (inserts t further)))" for further
    using pre by (rule inserts_keep_emits)
  show "acc = filter (\<lambda>k. k \<noteq> []) keywords" if "d_allow_substrings cfg"
    using that assms(2) by (simp add: accepted_allow_substrings new_trie_def)
  show "i = j" if "\<not> d_allow_substrings cfg"
    "(k, i) \<in> set (all_emits (states t)) \<and> (k, j) \<in> set (all_emits (states t))" for k i j
    using one_index [OF pre, of k i j] that assms(1) by (simp add: new_trie_def)
qed

theorem keyword_indices_witness:
  "all_emits (states he_he_she) = [(''he'', 0), (''she'', 1)] \<and>
   d_num_keywords he_he_she = of_nat (length [''he'', ''she'']) \<and>
   mset (all_emits (states he_he_she)) \<subseteq>#
     mset (all_emits (states (inserts he_he_she [''he'', ''his'']))) \<and>
   {i. (''he'', i) \<in> set (all_emits (states he_he_she))} = {0} \<and>
   accepted (new_trie default_config) [''he'', ''he''] = [''he'', ''he''] \<and>
   mset (all_emits (states (inserts (new_trie default_config) [''he'', ''he'']))) =
     {#(''he'', 0), (''he'', 1)#}"
proof -
  have acc: "[''he'', ''she''] = accepted (new_trie no_substrings_config) [''he'', ''he'', ''she'']"
    by code_simp
  note k = keyword_indices [OF he_he_she_def acc]
  have e: "all_emits (states he_he_she) = [(''he'', 0), (''she'', 1)]"
    by code_simp
  have n: "d_num_keywords he_he_she = of_nat (length [''he'', ''she''])"
    using k by (rule conjunct2 [THEN conjunct1])
  have "\<forall>further. mset (all_emits (states he_he_she)) \<subseteq>#
      mset (all_emits (states (inserts he_he_she further)))"
    using k by (rule conjunct2 [THEN conjunct2, THEN conjunct1])
  then have l: "mset (all_emits (states he_he_she)) \<subseteq>#
      mset (all_emits (states (inserts he_he_she [''he'', ''his''])))"
    by (rule spec)
  have na: "\<not> d_allow_substrings no_substrings_config"
    by (simp add: no_substrings_config_def)
  have u: "\<forall>k i j. (k, i) \<in> set (all_emits (states he_he_she)) \<and>
      (k, j) \<in> set (all_emits (states he_he_she)) \<longrightarrow> i = j"
    using k [THEN conjunct2, THEN conjunct2, THEN conjunct2, THEN conjunct1] na by (rule mp)
  have m: "(''he'', 0) \<in> set (all_emits (states he_he_she))"
    unfolding e by simp
  have o: "{i. (''he'', i) \<in> set (all_emits (states he_he_she))} = {0}"
    using u m by blast
  note d = keyword_indices [OF refl refl, of default_config "[''he'', ''he'']"]
  have a: "d_allow_substrings default_config"
    by (simp add: default_config_def)
  have f: "accepted (new_trie default_config) [''he'', ''he''] = [''he'', ''he'']"
    using d [THEN conjunct2, THEN conjunct2, THEN conjunct2, THEN conjunct2] a by simp
  have g: "mset (all_emits (states (inserts (new_trie default_config) [''he'', ''he'']))) =
     {#(''he'', 0), (''he'', 1)#}"
    using d [THEN conjunct1] unfolding f by (simp add: upt_rec)
  from e n l o f g show ?thesis
    by (intro conjI)
qed

subsection \<open>Removal of overlaps\<close>

text \<open>
  Two scans with overlaps removed, with \<open>enumerating_map\<close> for \<open>TransitionMap\<close>: the
  four keywords on "ushers", and the keywords "ushers", "he", "her" on "ushers".
\<close>

lemma ushers_remove_overlaps:
  "scan_ranges enumerating_map tolower isalpha (remove_overlaps_cfg ushers_trie) ''ushers'' =
     Some [(''hers'', 2, 5)]"
  by code_simp

lemma ushers_her_scan:
  "scan_ranges enumerating_map tolower isalpha ushers_her_trie ''ushers'' =
     Some [(''ushers'', 0, 5), (''her'', 2, 4)]"
  by code_simp

text \<open>
  C3. \<open>remove_overlaps\<close> should mark every overlap of each interval that it keeps and drop
  the marked intervals. On the intervals [0, 5], [2, 3], [2, 4] the intervals are processed
  in the order [0, 5], [2, 4], [2, 3]; the overlaps of [0, 5] are [2, 3] and [2, 4]; the set
  of marked intervals is ordered by start position alone, takes [2, 3] and refuses [2, 4];
  [2, 4] is then skipped as marked, and is not dropped.
\<close>

theorem remove_overlaps_marks_one_interval_per_start:
  "build_node [iv 0 5, iv 2 3, iv 2 4] = Some (Node 2 None None [iv 0 5, iv 2 3, iv 2 4]) \<and>
   sort_by size_start_order [iv 0 5, iv 2 3, iv 2 4] = [iv 0 5, iv 2 4, iv 2 3] \<and>
   find_overlaps_node (Node 2 None None [iv 0 5, iv 2 3, iv 2 4]) (iv 0 5) = [iv 2 3, iv 2 4] \<and>
   mark_overlaps (Node 2 None None [iv 0 5, iv 2 3, iv 2 4]) [iv 0 5, iv 2 4, iv 2 3] [] = [iv 2 3] \<and>
   set_find (iv 2 4) [iv 2 3] \<and>
   remove_overlaps (Node 2 None None [iv 0 5, iv 2 3, iv 2 4]) [iv 0 5, iv 2 3, iv 2 4] =
     Some [iv 0 5, iv 2 4]"
  by code_simp

text \<open>
  C4. The intervals returned by \<open>remove_overlaps\<close> should not overlap each other. On the
  intervals [0, 5], [2, 3], [2, 4] it returns [0, 5] and [2, 4], which overlap.
\<close>

theorem remove_overlaps_returns_overlapping_intervals:
  "tree_remove_overlaps [iv 0 5, iv 2 3, iv 2 4] = Some [iv 0 5, iv 2 4] \<and>
   overlaps_with (iv 0 5) (iv 2 4)"
  by code_simp

end
